theory Spec2Isabelle
  imports Main "HOL-Library.Word" "HOL-Library.Sublist"
begin

section \<open>Reflected class shapes\<close>

text \<open>
  What \<^verbatim>\<open>std::meta\<close> yields for a class: its non-static data members in
  declaration order, each with an identifier and a type, and its direct bases in
  declaration order. Member types are \<^verbatim>\<open>int\<close>, \<^verbatim>\<open>std::string\<close>, a
  \<^verbatim>\<open>std::shared_ptr\<close> to one of these, and a nested class; a
  \<^verbatim>\<open>std::shared_ptr\<close> to a class and the containers of the standard library
  are not among them, and nothing below speaks about classes with such members.
  A class can only name complete classes as bases and members, so a class shape
  is a finite tree.
\<close>

datatype scalar_ty = IntT | StringT

datatype ty = ScalarT scalar_ty | SharedT scalar_ty | ClassT cls
  and cls = Class (nonstatic_data_members_of: "(string \<times> ty) list") (bases_of: "cls list")

definition identifier_of :: "string \<times> ty \<Rightarrow> string" where
  "identifier_of m = fst m"

definition type_of :: "string \<times> ty \<Rightarrow> ty" where
  "type_of m = snd m"

text \<open>
  Failures. The first two stop the build: an \<^verbatim>\<open>assert\<close> that fails inside a
  \<^verbatim>\<open>consteval\<close> function and a \<^verbatim>\<open>static_assert\<close>. \<open>OutOfBounds\<close> is a
  read past the end of an array or vector (undefined behaviour in the source),
  \<open>ArchiveException\<close> is what an input archive throws on text it cannot read,
  and \<open>IllTyped\<close> marks an instance that does not have the shape of its class,
  which the C++ type system excludes.
\<close>

datatype error = ConstevalAssert | StaticAssert | OutOfBounds | ArchiveException | IllTyped

definition build_time :: "error \<Rightarrow> bool" where
  "build_time e = (e = ConstevalAssert \<or> e = StaticAssert)"

definition and_then :: "error + 'a \<Rightarrow> ('a \<Rightarrow> error + 'b) \<Rightarrow> error + 'b" where
  "and_then m f = (case m of Inl e \<Rightarrow> Inl e | Inr x \<Rightarrow> f x)"

section \<open>ClassSingleton\<close>

definition MAX_IDENTIFIER_LENGTH :: nat where
  "MAX_IDENTIFIER_LENGTH = 256"

definition MAX_CLASS_MEMBERS :: nat where
  "MAX_CLASS_MEMBERS = 256"

definition NUL :: char where
  "NUL = CHR 0x00"

text \<open>\<^verbatim>\<open>std::copy(svName.begin(), svName.end(), names[memberIndex].begin())\<close>\<close>

definition std_copy :: "string \<Rightarrow> char list \<Rightarrow> char list" where
  "std_copy svName row = svName @ drop (length svName) row"

text \<open>
  The second loop of \<^verbatim>\<open>classMemberNames\<close>, from \<open>memberIndex\<close> on. The
  assertion on the identifier's length is checked before the copy.
\<close>

function copy_member_names ::
  "(string \<times> ty) list \<Rightarrow> nat \<Rightarrow> char list list \<Rightarrow> error + char list list" where
  "copy_member_names members memberIndex names =
     (if memberIndex < length members then
        (let svName = identifier_of (members ! memberIndex) in
         if \<not> length svName < MAX_IDENTIFIER_LENGTH then Inl ConstevalAssert
         else copy_member_names members (memberIndex + 1)
                (names[memberIndex := std_copy svName (names ! memberIndex)]))
      else Inr names)"
  by pat_completeness auto
termination
  by (relation "measure (\<lambda>(members, memberIndex, names). length members - memberIndex)") auto

declare copy_member_names.simps [simp del]

text \<open>
  \<^verbatim>\<open>classMemberNames\<close>: a table of \<open>MAX_CLASS_MEMBERS\<close> rows of
  \<open>MAX_IDENTIFIER_LENGTH\<close> characters, cleared, then filled row by row. The
  first assertion leaves one row empty after the last member.
\<close>

definition classMemberNames :: "cls \<Rightarrow> error + char list list" where
  "classMemberNames C =
     (let members = nonstatic_data_members_of C in
      if \<not> length members < MAX_CLASS_MEMBERS - 1 then Inl ConstevalAssert
      else copy_member_names members 0
             (replicate MAX_CLASS_MEMBERS (replicate MAX_IDENTIFIER_LENGTH NUL)))"

text \<open>\<^verbatim>\<open>std::string name(memberNames[idx].data())\<close>: the characters before the first NUL.\<close>

definition c_str :: "char list \<Rightarrow> string" where
  "c_str row = takeWhile (\<lambda>c. c \<noteq> NUL) row"

text \<open>
  The loop of the constructor, which turns the table back into strings: it stops
  at the first row that starts with NUL. Reading a row past the table is
  \<open>OutOfBounds\<close>.
\<close>

function restringify :: "char list list \<Rightarrow> nat \<Rightarrow> string list \<Rightarrow> error + string list" where
  "restringify memberNames idx strings =
     (if \<not> idx < length memberNames then Inl OutOfBounds
      else if \<not> 0 < length (memberNames ! idx) then Inl OutOfBounds
      else if (memberNames ! idx) ! 0 \<noteq> NUL then
        restringify memberNames (idx + 1) (strings @ [c_str (memberNames ! idx)])
      else Inr strings)"
  by pat_completeness auto
termination
  by (relation "measure (\<lambda>(memberNames, idx, strings). length memberNames - idx)") auto

declare restringify.simps [simp del]

record ClassSingleton =
  memberNamesStrings :: "string list"
  memberCount :: nat
  baseCount :: nat
  bases :: "cls list"

text \<open>
  The constructor of \<^verbatim>\<open>ClassSingleton<Class>\<close> together with its static
  members \<^verbatim>\<open>_memberCount\<close>, \<^verbatim>\<open>_baseCount\<close> and \<^verbatim>\<open>_bases\<close>, which are read
  off the reflection and not off the strings.
\<close>

definition ClassSingleton_ctor :: "cls \<Rightarrow> error + ClassSingleton" where
  "ClassSingleton_ctor C =
     and_then (classMemberNames C) (\<lambda>memberNames.
     and_then (restringify memberNames 0 []) (\<lambda>strings.
       Inr \<lparr> memberNamesStrings = strings,
             memberCount = length (nonstatic_data_members_of C),
             baseCount = length (bases_of C),
             bases = bases_of C \<rparr>))"

text \<open>\<^verbatim>\<open>memberAtIndex\<close>: \<^verbatim>\<open>_memberNamesStrings[index]\<close>.\<close>

definition memberAtIndex :: "ClassSingleton \<Rightarrow> nat \<Rightarrow> error + string" where
  "memberAtIndex s index =
     (if index < length (memberNamesStrings s) then Inr (memberNamesStrings s ! index)
      else Inl OutOfBounds)"

definition getMemberNames :: "ClassSingleton \<Rightarrow> string list" where
  "getMemberNames s = memberNamesStrings s"

text \<open>
  \<^verbatim>\<open>instance()\<close> holds a function-local static: one object per class, built by
  the first call that reaches its declaration and returned by every call. The
  statics of all classes together are a partial map from classes to singletons.
  With it goes the record of the constructor runs, one entry for each run in the
  order they happen, so that building a singleton a second time would show.
\<close>

record statics =
  stored :: "cls \<rightharpoonup> ClassSingleton"
  constructed :: "cls list"


definition ClassSingleton_instance :: "statics \<Rightarrow> cls \<Rightarrow> error + (ClassSingleton \<times> statics)" where
  "ClassSingleton_instance st C =
     (case stored st C of
        Some s \<Rightarrow> Inr (s, st)
      | None \<Rightarrow>
          and_then (ClassSingleton_ctor C) (\<lambda>s.
            Inr (s, st\<lparr> stored := (stored st)(C \<mapsto> s), constructed := constructed st @ [C] \<rparr>)))"


section \<open>Instances\<close>

text \<open>
  An instance has one subobject per direct base and one value per non-static data
  member, both in declaration order. A \<^verbatim>\<open>std::shared_ptr\<close> is null or the
  address of its target; targets live in a heap, a list indexed by address.
\<close>

type_synonym addr = nat

datatype scalar = IntV "32 word" | StringV string

datatype val = ScalarV scalar | SharedV "addr option" | ObjV obj
  and obj = Obj (base_subobjects: "obj list") (member_values: "val list")

type_synonym heap = "scalar list"

fun scalar_has_ty :: "scalar \<Rightarrow> scalar_ty \<Rightarrow> bool" where
  "scalar_has_ty (IntV i) IntT = True"
| "scalar_has_ty (StringV s) StringT = True"
| "scalar_has_ty _ _ = False"

text \<open>\<^verbatim>\<open>member_info<Class, idx>\<close>: the \<open>idx\<close>-th reflected member.\<close>

definition member_info :: "cls \<Rightarrow> nat \<Rightarrow> string \<times> ty" where
  "member_info C idx = nonstatic_data_members_of C ! idx"

text \<open>
  \<^verbatim>\<open>member_ref_const\<close> yields the value of the member; \<^verbatim>\<open>member_ref\<close> yields
  a reference, which the caller reads (\<open>member_ref\<close>) and writes
  (\<open>member_ref_assign\<close>).
\<close>

definition member_ref_const :: "obj \<Rightarrow> nat \<Rightarrow> val" where
  "member_ref_const inst idx = member_values inst ! idx"

definition member_ref :: "obj \<Rightarrow> nat \<Rightarrow> val" where
  "member_ref inst idx = member_values inst ! idx"

definition member_ref_assign :: "obj \<Rightarrow> nat \<Rightarrow> val \<Rightarrow> obj" where
  "member_ref_assign inst idx v = Obj (base_subobjects inst) ((member_values inst)[idx := v])"

text \<open>\<^verbatim>\<open>static_cast<Parent&>(instance)\<close>, read and written.\<close>

definition static_cast_base :: "obj \<Rightarrow> nat \<Rightarrow> obj" where
  "static_cast_base inst index = base_subobjects inst ! index"

definition static_cast_base_assign :: "obj \<Rightarrow> nat \<Rightarrow> obj \<Rightarrow> obj" where
  "static_cast_base_assign inst index b = Obj ((base_subobjects inst)[index := b]) (member_values inst)"

section \<open>Archives\<close>

text \<open>
  Modelled from the spec: the archives are cereal's and are not among the
  sources. Following the Archive Abstraction of the spec, an archive transfers
  one value per call. What reaches the stream is kept as a sequence of tokens
  instead of bytes or text: a scalar, the opening and closing of a nested
  aggregate, and for a shared reference either null, a first occurrence with the
  target's contents, or a back-reference. The text backends keep the name a
  value was saved under, the binary backend keeps no names and no nesting marks.
\<close>

datatype backend = Binary | JSON | XML

datatype token =
    Value "string option" scalar
  | StartNode "string option"
  | FinishNode
  | NullPtr "string option"
  | NewPtr "string option" nat scalar
  | BackRef "string option" nat

record OutputArchive =
  out_backend :: backend
  out_stream :: "token list"
  out_shared :: "(addr \<times> nat) list"

record InputArchive =
  in_backend :: backend
  in_stream :: "token list"
  in_shared :: "(nat \<times> addr) list"

definition nvp_name :: "backend \<Rightarrow> string option \<Rightarrow> string option" where
  "nvp_name b name = (if b = Binary then None else name)"

definition emit :: "token \<Rightarrow> OutputArchive \<Rightarrow> OutputArchive" where
  "emit t ar = ar\<lparr>out_stream := out_stream ar @ [t]\<rparr>"

definition save_scalar :: "OutputArchive \<Rightarrow> string option \<Rightarrow> scalar_ty \<Rightarrow> scalar \<Rightarrow> error + OutputArchive" where
  "save_scalar ar name t s =
     (if scalar_has_ty s t then Inr (emit (Value (nvp_name (out_backend ar) name) s) ar)
      else Inl IllTyped)"

text \<open>
  Modelled from the spec: the shared-reference registry of an output archive.
  A target already written gets a back-reference; a new one gets the next
  identity, is registered, and is written in full.
\<close>

definition save_shared_ptr ::
  "heap \<Rightarrow> OutputArchive \<Rightarrow> string option \<Rightarrow> scalar_ty \<Rightarrow> addr option \<Rightarrow> error + OutputArchive" where
  "save_shared_ptr h ar name t p =
     (case p of
        None \<Rightarrow> Inr (emit (NullPtr (nvp_name (out_backend ar) name)) ar)
      | Some a \<Rightarrow>
          (case map_of (out_shared ar) a of
             Some i \<Rightarrow> Inr (emit (BackRef (nvp_name (out_backend ar) name) i) ar)
           | None \<Rightarrow>
               if a < length h \<and> scalar_has_ty (h ! a) t then
                 Inr ((emit (NewPtr (nvp_name (out_backend ar) name) (Suc (length (out_shared ar))) (h ! a)) ar)
                        \<lparr>out_shared := (a, Suc (length (out_shared ar))) # out_shared ar\<rparr>)
               else Inl IllTyped))"

definition startNode :: "OutputArchive \<Rightarrow> string option \<Rightarrow> OutputArchive" where
  "startNode ar name =
     (if out_backend ar = Binary then ar else emit (StartNode (nvp_name (out_backend ar) name)) ar)"

definition finishNode :: "OutputArchive \<Rightarrow> OutputArchive" where
  "finishNode ar = (if out_backend ar = Binary then ar else emit FinishNode ar)"

definition next_token :: "InputArchive \<Rightarrow> error + (token \<times> InputArchive)" where
  "next_token ar =
     (case in_stream ar of
        [] \<Rightarrow> Inl ArchiveException
      | t # ts \<Rightarrow> Inr (t, ar\<lparr>in_stream := ts\<rparr>))"

definition load_scalar :: "InputArchive \<Rightarrow> scalar_ty \<Rightarrow> error + (scalar \<times> InputArchive)" where
  "load_scalar ar t =
     and_then (next_token ar) (\<lambda>(tok, ar1).
       case tok of
         Value _ s \<Rightarrow> if scalar_has_ty s t then Inr (s, ar1) else Inl ArchiveException
       | _ \<Rightarrow> Inl ArchiveException)"

text \<open>
  Modelled from the spec: the shared-reference registry of an input archive.
  A first occurrence allocates the target and registers it under its identity;
  a back-reference yields the registered target.
\<close>

definition load_shared_ptr ::
  "InputArchive \<Rightarrow> heap \<Rightarrow> scalar_ty \<Rightarrow> error + (addr option \<times> InputArchive \<times> heap)" where
  "load_shared_ptr ar h t =
     and_then (next_token ar) (\<lambda>(tok, ar1).
       case tok of
         NullPtr _ \<Rightarrow> Inr (None, ar1, h)
       | NewPtr _ i s \<Rightarrow>
           if scalar_has_ty s t then
             Inr (Some (length h), ar1\<lparr>in_shared := (i, length h) # in_shared ar1\<rparr>, h @ [s])
           else Inl ArchiveException
       | BackRef _ i \<Rightarrow>
           (case map_of (in_shared ar1) i of
              Some a \<Rightarrow> Inr (Some a, ar1, h)
            | None \<Rightarrow> Inl ArchiveException)
       | _ \<Rightarrow> Inl ArchiveException)"

definition startNode_in :: "InputArchive \<Rightarrow> error + InputArchive" where
  "startNode_in ar =
     (if in_backend ar = Binary then Inr ar
      else and_then (next_token ar) (\<lambda>(tok, ar1).
             case tok of StartNode _ \<Rightarrow> Inr ar1 | _ \<Rightarrow> Inl ArchiveException))"

definition finishNode_in :: "InputArchive \<Rightarrow> error + InputArchive" where
  "finishNode_in ar =
     (if in_backend ar = Binary then Inr ar
      else and_then (next_token ar) (\<lambda>(tok, ar1).
             case tok of FinishNode \<Rightarrow> Inr ar1 | _ \<Rightarrow> Inl ArchiveException))"

lemma and_then_cong [fundef_cong]:
  "m = m' \<Longrightarrow> (\<And>x. m' = Inr x \<Longrightarrow> f x = f' x) \<Longrightarrow> and_then m f = and_then m' f'"
  by (auto simp: and_then_def split: sum.splits)

lemma ClassSingleton_ctor_counts:
  "ClassSingleton_ctor C = Inr s \<Longrightarrow>
     memberCount s = length (nonstatic_data_members_of C) \<and>
     baseCount s = length (bases_of C) \<and> bases s = bases_of C"
  by (auto simp: ClassSingleton_ctor_def and_then_def split: sum.splits)

lemma size_base_less: "k < length (bases_of C) \<Longrightarrow> size (bases_of C ! k) < size C"
  by (cases C) (auto simp: less_Suc_eq_le intro!: trans_le_add2 size_list_estimation' [OF nth_mem])

lemma size_member_type_less:
  "i < length (nonstatic_data_members_of C) \<Longrightarrow> size (type_of (member_info C i)) < size C"
proof (cases C)
  case (Class ms bs)
  assume "i < length (nonstatic_data_members_of C)"
  then have i: "i < length ms" using Class by simp
  obtain n T where p: "ms ! i = (n, T)" by (cases "ms ! i")
  have "size T < size_prod (\<lambda>x. 0) size (ms ! i)" using p by simp
  then have "size T < size_list (size_prod (\<lambda>x. 0) size) ms"
    using i by (intro size_list_estimation [OF nth_mem])
  then show ?thesis using Class p by (simp add: member_info_def type_of_def)
qed

section \<open>The traversal: save\<close>

text \<open>
  \<^verbatim>\<open>saveHelper<Archive, Class, memberCount, index>\<close>,
  \<^verbatim>\<open>saveParents<Archive, Class, index>\<close> and \<^verbatim>\<open>cereal::save\<close>, with the call
  \<^verbatim>\<open>ar(cereal::make_nvp(name, value))\<close> of the archive, which comes back to
  \<^verbatim>\<open>cereal::save\<close> for a member that is itself a class. Template parameters are
  ordinary arguments; a \<^verbatim>\<open>static_assert\<close> that fails and an \<^verbatim>\<open>if constexpr\<close>
  are branches. \<^verbatim>\<open>ClassSingleton<Class>::instance()\<close> is read as the object the
  constructor builds (lemma \<open>ClassSingleton_instance_value\<close> below).
\<close>

function saveHelper :: "heap \<Rightarrow> OutputArchive \<Rightarrow> cls \<Rightarrow> nat \<Rightarrow> nat \<Rightarrow> obj \<Rightarrow> error + OutputArchive"
  and saveParents :: "heap \<Rightarrow> OutputArchive \<Rightarrow> cls \<Rightarrow> nat \<Rightarrow> obj \<Rightarrow> error + OutputArchive"
  and save :: "heap \<Rightarrow> OutputArchive \<Rightarrow> cls \<Rightarrow> obj \<Rightarrow> error + OutputArchive"
  and OutputArchive_call :: "heap \<Rightarrow> OutputArchive \<Rightarrow> string option \<Rightarrow> ty \<Rightarrow> val \<Rightarrow> error + OutputArchive"
where
  "saveHelper h ar C memberCount' index inst =
     and_then (ClassSingleton_ctor C) (\<lambda>classInstance.
       if \<not> memberCount classInstance > 0 then Inl StaticAssert
       else if \<not> index < memberCount classInstance then Inl StaticAssert
       else
         and_then (if index = 0 \<and> baseCount classInstance > 0
                   then saveParents h ar C 0 inst else Inr ar) (\<lambda>ar1.
         if \<not> index < length (member_values inst) then Inl IllTyped
         else
           and_then (memberAtIndex classInstance index) (\<lambda>name.
           and_then (OutputArchive_call h ar1 (Some name) (type_of (member_info C index))
                       (member_ref_const inst index)) (\<lambda>ar2.
             if index + 1 < memberCount classInstance
             then saveHelper h ar2 C (memberCount classInstance) (index + 1) inst
             else Inr ar2))))"
| "saveParents h ar C index inst =
     and_then (ClassSingleton_ctor C) (\<lambda>classInstance.
       if \<not> index < length (bases classInstance) then Inl OutOfBounds
       else
         and_then (ClassSingleton_ctor (bases classInstance ! index)) (\<lambda>parentInstance.
         if \<not> index < length (base_subobjects inst) then Inl IllTyped
         else
           and_then (saveHelper h ar (bases classInstance ! index) (memberCount parentInstance) 0
                       (static_cast_base inst index)) (\<lambda>ar1.
             if index + 1 < baseCount classInstance
             then saveParents h ar1 C (index + 1) inst
             else Inr ar1)))"
| "save h ar C inst =
     and_then (ClassSingleton_ctor C) (\<lambda>classInstance.
       saveHelper h ar C (memberCount classInstance) 0 inst)"
| "OutputArchive_call h ar name T (ScalarV s) =
     (case T of ScalarT t \<Rightarrow> save_scalar ar name t s | _ \<Rightarrow> Inl IllTyped)"
| "OutputArchive_call h ar name T (SharedV p) =
     (case T of SharedT t \<Rightarrow> save_shared_ptr h ar name t p | _ \<Rightarrow> Inl IllTyped)"
| "OutputArchive_call h ar name T (ObjV inst) =
     (case T of
        ClassT C \<Rightarrow> and_then (save h (startNode ar name) C inst) (\<lambda>ar1. Inr (finishNode ar1))
      | _ \<Rightarrow> Inl IllTyped)"
  by pat_completeness auto
termination
  apply (relation "inv_image (less_than <*lex*> less_than <*lex*> less_than)
      (\<lambda>x. case x of
         Inl (Inl (h, ar, C, n, index, inst)) \<Rightarrow>
           (size C, 2::nat, length (nonstatic_data_members_of C) - index)
       | Inl (Inr (h, ar, C, index, inst)) \<Rightarrow> (size C, 1, length (bases_of C) - index)
       | Inr (Inl (h, ar, C, inst)) \<Rightarrow> (size C, 3, 0)
       | Inr (Inr (h, ar, name, T, v)) \<Rightarrow> (size T, 0, 0))")
  apply (auto dest!: ClassSingleton_ctor_counts simp: size_member_type_less size_base_less)
  done

declare saveHelper.simps [simp del] saveParents.simps [simp del] save.simps [simp del]

section \<open>The traversal: load\<close>

text \<open>
  \<^verbatim>\<open>loadHelper\<close>, \<^verbatim>\<open>loadParents\<close> and \<^verbatim>\<open>cereal::load\<close>, with the call
  \<^verbatim>\<open>ar(ref)\<close> of the archive: no name goes with the reference. The instance
  is passed by reference, so each function returns it with the archive; loading
  a shared reference allocates, so the heap is returned as well.
\<close>

function loadHelper :: "InputArchive \<Rightarrow> heap \<Rightarrow> cls \<Rightarrow> nat \<Rightarrow> nat \<Rightarrow> obj \<Rightarrow> error + (obj \<times> InputArchive \<times> heap)"
  and loadParents :: "InputArchive \<Rightarrow> heap \<Rightarrow> cls \<Rightarrow> nat \<Rightarrow> obj \<Rightarrow> error + (obj \<times> InputArchive \<times> heap)"
  and load :: "InputArchive \<Rightarrow> heap \<Rightarrow> cls \<Rightarrow> obj \<Rightarrow> error + (obj \<times> InputArchive \<times> heap)"
  and InputArchive_call :: "InputArchive \<Rightarrow> heap \<Rightarrow> ty \<Rightarrow> val \<Rightarrow> error + (val \<times> InputArchive \<times> heap)"
where
  "loadHelper ar h C memberCount' index inst =
     and_then (ClassSingleton_ctor C) (\<lambda>classInstance.
       if \<not> memberCount classInstance > 0 then Inl StaticAssert
       else if \<not> index < memberCount classInstance then Inl StaticAssert
       else
         and_then (if index = 0 \<and> baseCount classInstance > 0
                   then loadParents ar h C 0 inst else Inr (inst, ar, h)) (\<lambda>(inst1, ar1, h1).
         if \<not> index < length (member_values inst1) then Inl IllTyped
         else
           and_then (InputArchive_call ar1 h1 (type_of (member_info C index))
                       (member_ref inst1 index)) (\<lambda>(v, ar2, h2).
             if index + 1 < memberCount classInstance
             then loadHelper ar2 h2 C (memberCount classInstance) (index + 1)
                    (member_ref_assign inst1 index v)
             else Inr (member_ref_assign inst1 index v, ar2, h2))))"
| "loadParents ar h C index inst =
     and_then (ClassSingleton_ctor C) (\<lambda>classInstance.
       if \<not> index < length (bases classInstance) then Inl OutOfBounds
       else
         and_then (ClassSingleton_ctor (bases classInstance ! index)) (\<lambda>parentInstance.
         if \<not> index < length (base_subobjects inst) then Inl IllTyped
         else
           and_then (loadHelper ar h (bases classInstance ! index) (memberCount parentInstance) 0
                       (static_cast_base inst index)) (\<lambda>(baseInstance, ar1, h1).
             if index + 1 < baseCount classInstance
             then loadParents ar1 h1 C (index + 1) (static_cast_base_assign inst index baseInstance)
             else Inr (static_cast_base_assign inst index baseInstance, ar1, h1))))"
| "load ar h C inst =
     and_then (ClassSingleton_ctor C) (\<lambda>classInstance.
       loadHelper ar h C (memberCount classInstance) 0 inst)"
| "InputArchive_call ar h (ScalarT t) v =
     and_then (load_scalar ar t) (\<lambda>(s, ar1). Inr (ScalarV s, ar1, h))"
| "InputArchive_call ar h (SharedT t) v =
     and_then (load_shared_ptr ar h t) (\<lambda>(p, ar1, h1). Inr (SharedV p, ar1, h1))"
| "InputArchive_call ar h (ClassT C) v =
     (case v of
        ObjV inst \<Rightarrow>
          and_then (startNode_in ar) (\<lambda>ar1.
          and_then (load ar1 h C inst) (\<lambda>(inst1, ar2, h2).
          and_then (finishNode_in ar2) (\<lambda>ar3. Inr (ObjV inst1, ar3, h2))))
      | _ \<Rightarrow> Inl IllTyped)"
  by pat_completeness auto
termination
  apply (relation "inv_image (less_than <*lex*> less_than <*lex*> less_than)
      (\<lambda>x. case x of
         Inl (Inl (ar, h, C, n, index, inst)) \<Rightarrow>
           (size C, 2::nat, length (nonstatic_data_members_of C) - index)
       | Inl (Inr (ar, h, C, index, inst)) \<Rightarrow> (size C, 1, length (bases_of C) - index)
       | Inr (Inl (ar, h, C, inst)) \<Rightarrow> (size C, 3, 0)
       | Inr (Inr (ar, h, T, v)) \<Rightarrow> (size T, 0, 0))")
  apply (auto dest!: ClassSingleton_ctor_counts simp: size_member_type_less size_base_less)
  done

declare loadHelper.simps [simp del] loadParents.simps [simp del] load.simps [simp del]

section \<open>The traversal: save, with what it leaves behind\<close>

text \<open>
  \<^verbatim>\<open>saveHelper\<close>, \<^verbatim>\<open>saveParents\<close> and \<^verbatim>\<open>cereal::save\<close> once more, now as the
  caller sees a call: the instance and the heap of shared targets are handed over
  by reference and come back as the call leaves them, like the archive. Nothing
  is taken from the reference being one to const: what a callee hands back for
  the base subobject or the member it was given is put back in its place, as
  \<^verbatim>\<open>loadHelper\<close> does for the references it passes on.
\<close>

function saveHelper_ref :: "heap \<Rightarrow> OutputArchive \<Rightarrow> cls \<Rightarrow> nat \<Rightarrow> nat \<Rightarrow> obj \<Rightarrow> error + (obj \<times> OutputArchive \<times> heap)"
  and saveParents_ref :: "heap \<Rightarrow> OutputArchive \<Rightarrow> cls \<Rightarrow> nat \<Rightarrow> obj \<Rightarrow> error + (obj \<times> OutputArchive \<times> heap)"
  and save_ref :: "heap \<Rightarrow> OutputArchive \<Rightarrow> cls \<Rightarrow> obj \<Rightarrow> error + (obj \<times> OutputArchive \<times> heap)"
  and OutputArchive_call_ref :: "heap \<Rightarrow> OutputArchive \<Rightarrow> string option \<Rightarrow> ty \<Rightarrow> val \<Rightarrow> error + (val \<times> OutputArchive \<times> heap)"
where
  "saveHelper_ref h ar C memberCount' index inst =
     and_then (ClassSingleton_ctor C) (\<lambda>classInstance.
       if \<not> memberCount classInstance > 0 then Inl StaticAssert
       else if \<not> index < memberCount classInstance then Inl StaticAssert
       else
         and_then (if index = 0 \<and> baseCount classInstance > 0
                   then saveParents_ref h ar C 0 inst else Inr (inst, ar, h)) (\<lambda>(inst1, ar1, h1).
         if \<not> index < length (member_values inst1) then Inl IllTyped
         else
           and_then (memberAtIndex classInstance index) (\<lambda>name.
           and_then (OutputArchive_call_ref h1 ar1 (Some name) (type_of (member_info C index))
                       (member_ref_const inst1 index)) (\<lambda>(v, ar2, h2).
             if index + 1 < memberCount classInstance
             then saveHelper_ref h2 ar2 C (memberCount classInstance) (index + 1)
                    (member_ref_assign inst1 index v)
             else Inr (member_ref_assign inst1 index v, ar2, h2)))))"
| "saveParents_ref h ar C index inst =
     and_then (ClassSingleton_ctor C) (\<lambda>classInstance.
       if \<not> index < length (bases classInstance) then Inl OutOfBounds
       else
         and_then (ClassSingleton_ctor (bases classInstance ! index)) (\<lambda>parentInstance.
         if \<not> index < length (base_subobjects inst) then Inl IllTyped
         else
           and_then (saveHelper_ref h ar (bases classInstance ! index) (memberCount parentInstance) 0
                       (static_cast_base inst index)) (\<lambda>(baseInstance, ar1, h1).
             if index + 1 < baseCount classInstance
             then saveParents_ref h1 ar1 C (index + 1) (static_cast_base_assign inst index baseInstance)
             else Inr (static_cast_base_assign inst index baseInstance, ar1, h1))))"
| "save_ref h ar C inst =
     and_then (ClassSingleton_ctor C) (\<lambda>classInstance.
       saveHelper_ref h ar C (memberCount classInstance) 0 inst)"
| "OutputArchive_call_ref h ar name T (ScalarV s) =
     (case T of
        ScalarT t \<Rightarrow> and_then (save_scalar ar name t s) (\<lambda>ar1. Inr (ScalarV s, ar1, h))
      | _ \<Rightarrow> Inl IllTyped)"
| "OutputArchive_call_ref h ar name T (SharedV p) =
     (case T of
        SharedT t \<Rightarrow> and_then (save_shared_ptr h ar name t p) (\<lambda>ar1. Inr (SharedV p, ar1, h))
      | _ \<Rightarrow> Inl IllTyped)"
| "OutputArchive_call_ref h ar name T (ObjV inst) =
     (case T of
        ClassT C \<Rightarrow>
          and_then (save_ref h (startNode ar name) C inst) (\<lambda>(inst1, ar1, h1).
            Inr (ObjV inst1, finishNode ar1, h1))
      | _ \<Rightarrow> Inl IllTyped)"
  by pat_completeness auto
termination
  apply (relation "inv_image (less_than <*lex*> less_than <*lex*> less_than)
      (\<lambda>x. case x of
         Inl (Inl (h, ar, C, n, index, inst)) \<Rightarrow>
           (size C, 2::nat, length (nonstatic_data_members_of C) - index)
       | Inl (Inr (h, ar, C, index, inst)) \<Rightarrow> (size C, 1, length (bases_of C) - index)
       | Inr (Inl (h, ar, C, inst)) \<Rightarrow> (size C, 3, 0)
       | Inr (Inr (h, ar, name, T, v)) \<Rightarrow> (size T, 0, 0))")
  apply (auto dest!: ClassSingleton_ctor_counts simp: size_member_type_less size_base_less)
  done

declare saveHelper_ref.simps [simp del] saveParents_ref.simps [simp del] save_ref.simps [simp del]

text \<open>The result of a save, with the object and the heap it was given handed back.\<close>

definition handing_back :: "'a \<Rightarrow> heap \<Rightarrow> error + OutputArchive \<Rightarrow> error + ('a \<times> OutputArchive \<times> heap)" where
  "handing_back x h r = and_then r (\<lambda>ar. Inr (x, ar, h))"

section \<open>The traversal: save, with the depth of its nesting\<close>

text \<open>
  \<^verbatim>\<open>saveHelper\<close>, \<^verbatim>\<open>saveParents\<close> and \<^verbatim>\<open>cereal::save\<close> with a count of how
  deep the invocations of \<^verbatim>\<open>saveHelper\<close> nest while they run: an invocation
  of \<^verbatim>\<open>saveHelper\<close> is one deeper than the deepest of the calls in its body,
  which are the call of \<^verbatim>\<open>saveParents\<close>, the call of the archive and the
  call of \<^verbatim>\<open>saveHelper\<close> for the next ordinal. \<^verbatim>\<open>saveParents\<close>,
  \<^verbatim>\<open>cereal::save\<close> and the archive pass on the count of what they call.
\<close>

function saveHelper_depth :: "heap \<Rightarrow> OutputArchive \<Rightarrow> cls \<Rightarrow> nat \<Rightarrow> nat \<Rightarrow> obj \<Rightarrow> error + (OutputArchive \<times> nat)"
  and saveParents_depth :: "heap \<Rightarrow> OutputArchive \<Rightarrow> cls \<Rightarrow> nat \<Rightarrow> obj \<Rightarrow> error + (OutputArchive \<times> nat)"
  and save_depth :: "heap \<Rightarrow> OutputArchive \<Rightarrow> cls \<Rightarrow> obj \<Rightarrow> error + (OutputArchive \<times> nat)"
  and OutputArchive_call_depth :: "heap \<Rightarrow> OutputArchive \<Rightarrow> string option \<Rightarrow> ty \<Rightarrow> val \<Rightarrow> error + (OutputArchive \<times> nat)"
where
  "saveHelper_depth h ar C memberCount' index inst =
     and_then (ClassSingleton_ctor C) (\<lambda>classInstance.
       if \<not> memberCount classInstance > 0 then Inl StaticAssert
       else if \<not> index < memberCount classInstance then Inl StaticAssert
       else
         and_then (if index = 0 \<and> baseCount classInstance > 0
                   then saveParents_depth h ar C 0 inst else Inr (ar, 0)) (\<lambda>(ar1, d1).
         if \<not> index < length (member_values inst) then Inl IllTyped
         else
           and_then (memberAtIndex classInstance index) (\<lambda>name.
           and_then (OutputArchive_call_depth h ar1 (Some name) (type_of (member_info C index))
                       (member_ref_const inst index)) (\<lambda>(ar2, d2).
           and_then (if index + 1 < memberCount classInstance
                     then saveHelper_depth h ar2 C (memberCount classInstance) (index + 1) inst
                     else Inr (ar2, 0)) (\<lambda>(ar3, d3).
             Inr (ar3, Suc (max d1 (max d2 d3))))))))"
| "saveParents_depth h ar C index inst =
     and_then (ClassSingleton_ctor C) (\<lambda>classInstance.
       if \<not> index < length (bases classInstance) then Inl OutOfBounds
       else
         and_then (ClassSingleton_ctor (bases classInstance ! index)) (\<lambda>parentInstance.
         if \<not> index < length (base_subobjects inst) then Inl IllTyped
         else
           and_then (saveHelper_depth h ar (bases classInstance ! index) (memberCount parentInstance) 0
                       (static_cast_base inst index)) (\<lambda>(ar1, d1).
           and_then (if index + 1 < baseCount classInstance
                     then saveParents_depth h ar1 C (index + 1) inst
                     else Inr (ar1, 0)) (\<lambda>(ar2, d2).
             Inr (ar2, max d1 d2)))))"
| "save_depth h ar C inst =
     and_then (ClassSingleton_ctor C) (\<lambda>classInstance.
       saveHelper_depth h ar C (memberCount classInstance) 0 inst)"
| "OutputArchive_call_depth h ar name T (ScalarV s) =
     (case T of
        ScalarT t \<Rightarrow> and_then (save_scalar ar name t s) (\<lambda>ar1. Inr (ar1, 0))
      | _ \<Rightarrow> Inl IllTyped)"
| "OutputArchive_call_depth h ar name T (SharedV p) =
     (case T of
        SharedT t \<Rightarrow> and_then (save_shared_ptr h ar name t p) (\<lambda>ar1. Inr (ar1, 0))
      | _ \<Rightarrow> Inl IllTyped)"
| "OutputArchive_call_depth h ar name T (ObjV inst) =
     (case T of
        ClassT C \<Rightarrow>
          and_then (save_depth h (startNode ar name) C inst) (\<lambda>(ar1, d). Inr (finishNode ar1, d))
      | _ \<Rightarrow> Inl IllTyped)"
  by pat_completeness auto
termination
  apply (relation "inv_image (less_than <*lex*> less_than <*lex*> less_than)
      (\<lambda>x. case x of
         Inl (Inl (h, ar, C, n, index, inst)) \<Rightarrow>
           (size C, 2::nat, length (nonstatic_data_members_of C) - index)
       | Inl (Inr (h, ar, C, index, inst)) \<Rightarrow> (size C, 1, length (bases_of C) - index)
       | Inr (Inl (h, ar, C, inst)) \<Rightarrow> (size C, 3, 0)
       | Inr (Inr (h, ar, name, T, v)) \<Rightarrow> (size T, 0, 0))")
  apply (auto dest!: ClassSingleton_ctor_counts simp: size_member_type_less size_base_less)
  done

declare saveHelper_depth.simps [simp del] saveParents_depth.simps [simp del] save_depth.simps [simp del]

text \<open>The result of a save, with a depth.\<close>

definition with_depth :: "nat \<Rightarrow> error + OutputArchive \<Rightarrow> error + (OutputArchive \<times> nat)" where
  "with_depth d r = and_then r (\<lambda>ar. Inr (ar, d))"

section \<open>The names in a text\<close>

text \<open>
  A text with every name replaced through \<open>f\<close>, an input archive on such a
  text, and a result of loading with the archive it leaves taken to such a text.
\<close>

fun rename :: "(string option \<Rightarrow> string option) \<Rightarrow> token \<Rightarrow> token" where
  "rename f (Value name s) = Value (f name) s"
| "rename f (StartNode name) = StartNode (f name)"
| "rename f FinishNode = FinishNode"
| "rename f (NullPtr name) = NullPtr (f name)"
| "rename f (NewPtr name i s) = NewPtr (f name) i s"
| "rename f (BackRef name i) = BackRef (f name) i"

definition renamed :: "(string option \<Rightarrow> string option) \<Rightarrow> InputArchive \<Rightarrow> InputArchive" where
  "renamed f ar = ar\<lparr>in_stream := map (rename f) (in_stream ar)\<rparr>"

definition and_renamed ::
  "(string option \<Rightarrow> string option) \<Rightarrow> error + ('a \<times> InputArchive \<times> heap) \<Rightarrow> error + ('a \<times> InputArchive \<times> heap)" where
  "and_renamed f r = and_then r (\<lambda>(x, ar, h). Inr (x, renamed f ar, h))"

section \<open>The convenience functions\<close>

text \<open>
  The archives bound to a stream. The stream is the sequence of tokens not yet
  read; writing appends to it.
\<close>

definition JSONOutputArchive :: "token list \<Rightarrow> OutputArchive" where
  "JSONOutputArchive stream = \<lparr> out_backend = JSON, out_stream = stream, out_shared = [] \<rparr>"

definition XMLOutputArchive :: "token list \<Rightarrow> OutputArchive" where
  "XMLOutputArchive stream = \<lparr> out_backend = XML, out_stream = stream, out_shared = [] \<rparr>"

definition BinaryOutputArchive :: "token list \<Rightarrow> OutputArchive" where
  "BinaryOutputArchive stream = \<lparr> out_backend = Binary, out_stream = stream, out_shared = [] \<rparr>"

definition JSONInputArchive :: "token list \<Rightarrow> InputArchive" where
  "JSONInputArchive stream = \<lparr> in_backend = JSON, in_stream = stream, in_shared = [] \<rparr>"

definition XMLInputArchive :: "token list \<Rightarrow> InputArchive" where
  "XMLInputArchive stream = \<lparr> in_backend = XML, in_stream = stream, in_shared = [] \<rparr>"

definition BinaryInputArchive :: "token list \<Rightarrow> InputArchive" where
  "BinaryInputArchive stream = \<lparr> in_backend = Binary, in_stream = stream, in_shared = [] \<rparr>"

text \<open>
  What a call receives by reference: the object, the heap its shared references
  point into, and the stream. Each function returns all three as the call
  leaves them. The object is given with its static type, and with a name when
  the caller wraps it in \<^verbatim>\<open>cereal::make_nvp\<close>.
\<close>

record frame =
  frame_obj :: val
  frame_heap :: heap
  frame_stream :: "token list"

definition to_output_archive ::
  "heap \<Rightarrow> string option \<Rightarrow> ty \<Rightarrow> val \<Rightarrow> OutputArchive \<Rightarrow> error + (val \<times> OutputArchive \<times> heap)" where
  "to_output_archive h name T obj ar = OutputArchive_call_ref h ar name T obj"

definition from_input_archive ::
  "heap \<Rightarrow> ty \<Rightarrow> val \<Rightarrow> InputArchive \<Rightarrow> error + (val \<times> InputArchive \<times> heap)" where
  "from_input_archive h T obj ar = InputArchive_call ar h T obj"

definition to_json :: "string option \<Rightarrow> ty \<Rightarrow> frame \<Rightarrow> error + frame" where
  "to_json name T f =
     and_then (to_output_archive (frame_heap f) name T (frame_obj f) (JSONOutputArchive (frame_stream f)))
       (\<lambda>(obj, ar, h). Inr \<lparr> frame_obj = obj, frame_heap = h, frame_stream = out_stream ar \<rparr>)"

definition from_json :: "ty \<Rightarrow> frame \<Rightarrow> error + frame" where
  "from_json T f =
     and_then (from_input_archive (frame_heap f) T (frame_obj f) (JSONInputArchive (frame_stream f)))
       (\<lambda>(obj, ar, h). Inr \<lparr> frame_obj = obj, frame_heap = h, frame_stream = in_stream ar \<rparr>)"

definition to_xml :: "string option \<Rightarrow> ty \<Rightarrow> frame \<Rightarrow> error + frame" where
  "to_xml name T f =
     and_then (OutputArchive_call_ref (frame_heap f) (XMLOutputArchive (frame_stream f)) name T (frame_obj f))
       (\<lambda>(obj, ar, h). Inr \<lparr> frame_obj = obj, frame_heap = h, frame_stream = out_stream ar \<rparr>)"

definition from_xml :: "ty \<Rightarrow> frame \<Rightarrow> error + frame" where
  "from_xml T f =
     and_then (InputArchive_call (XMLInputArchive (frame_stream f)) (frame_heap f) T (frame_obj f))
       (\<lambda>(obj, ar, h). Inr \<lparr> frame_obj = obj, frame_heap = h, frame_stream = in_stream ar \<rparr>)"

text \<open>
  The string versions: a fresh stream of their own, and the string is what the
  stream holds.
\<close>

definition to_json_string :: "string option \<Rightarrow> ty \<Rightarrow> heap \<Rightarrow> val \<Rightarrow> error + token list" where
  "to_json_string name T h obj =
     and_then (to_json name T \<lparr> frame_obj = obj, frame_heap = h, frame_stream = [] \<rparr>)
       (\<lambda>f. Inr (frame_stream f))"

definition from_json_string :: "ty \<Rightarrow> heap \<Rightarrow> val \<Rightarrow> token list \<Rightarrow> error + (val \<times> heap)" where
  "from_json_string T h obj json =
     and_then (from_json T \<lparr> frame_obj = obj, frame_heap = h, frame_stream = json \<rparr>)
       (\<lambda>f. Inr (frame_obj f, frame_heap f))"

definition to_xml_string :: "string option \<Rightarrow> ty \<Rightarrow> heap \<Rightarrow> val \<Rightarrow> error + token list" where
  "to_xml_string name T h obj =
     and_then (to_xml name T \<lparr> frame_obj = obj, frame_heap = h, frame_stream = [] \<rparr>)
       (\<lambda>f. Inr (frame_stream f))"

definition from_xml_string :: "ty \<Rightarrow> heap \<Rightarrow> val \<Rightarrow> token list \<Rightarrow> error + (val \<times> heap)" where
  "from_xml_string T h obj xml =
     and_then (from_xml T \<lparr> frame_obj = obj, frame_heap = h, frame_stream = xml \<rparr>)
       (\<lambda>f. Inr (frame_obj f, frame_heap f))"

section \<open>The traversal as the spec words it\<close>

text \<open>
  The algorithm of the spec, to compare with the functions above: for each base
  index in order, invoke the same procedure on the base subobject; then for each
  field index in order, hand the field to the archive, with its name on save and
  without on load. \<open>for_each\<close> runs the steps from left to right and stops at
  the first failure.
\<close>

fun for_each :: "nat list \<Rightarrow> (nat \<Rightarrow> 's \<Rightarrow> error + 's) \<Rightarrow> 's \<Rightarrow> error + 's" where
  "for_each [] step s = Inr s"
| "for_each (i # is) step s = and_then (step i s) (for_each is step)"

definition save_base_step :: "heap \<Rightarrow> cls \<Rightarrow> obj \<Rightarrow> nat \<Rightarrow> OutputArchive \<Rightarrow> error + OutputArchive" where
  "save_base_step h C inst k ar = save h ar (bases_of C ! k) (static_cast_base inst k)"

definition save_field_step ::
  "heap \<Rightarrow> cls \<Rightarrow> ClassSingleton \<Rightarrow> obj \<Rightarrow> nat \<Rightarrow> OutputArchive \<Rightarrow> error + OutputArchive" where
  "save_field_step h C s inst i ar =
     and_then (memberAtIndex s i) (\<lambda>name.
       OutputArchive_call h ar (Some name) (type_of (member_info C i)) (member_ref_const inst i))"

definition load_base_step ::
  "cls \<Rightarrow> nat \<Rightarrow> obj \<times> InputArchive \<times> heap \<Rightarrow> error + (obj \<times> InputArchive \<times> heap)" where
  "load_base_step C k = (\<lambda>(inst, ar, h).
     and_then (load ar h (bases_of C ! k) (static_cast_base inst k)) (\<lambda>(b, ar1, h1).
       Inr (static_cast_base_assign inst k b, ar1, h1)))"

definition load_field_step ::
  "cls \<Rightarrow> nat \<Rightarrow> obj \<times> InputArchive \<times> heap \<Rightarrow> error + (obj \<times> InputArchive \<times> heap)" where
  "load_field_step C i = (\<lambda>(inst, ar, h).
     and_then (InputArchive_call ar h (type_of (member_info C i)) (member_ref inst i)) (\<lambda>(v, ar1, h1).
       Inr (member_ref_assign inst i v, ar1, h1)))"

section \<open>Calls and their nesting\<close>

lemma size_base_mem_less: "B \<in> set (bases_of C) \<Longrightarrow> size B < size C"
  by (metis in_set_conv_nth size_base_less)

text \<open>
  The invocations of \<^verbatim>\<open>saveHelper\<close> that an invocation for class \<open>C\<close> at
  ordinal \<open>index\<close> brings about, itself first, as pairs of a class and an
  ordinal: through \<^verbatim>\<open>saveParents\<close> at ordinal 0, through the archive for a
  member that is a class, and by the step to \<open>index + 1\<close>. An invocation whose
  static assertions fail brings about no other. \<^verbatim>\<open>loadHelper\<close> has the same
  calls.
\<close>

function helper_calls :: "cls \<Rightarrow> nat \<Rightarrow> (cls \<times> nat) list"
  and parents_calls :: "cls \<Rightarrow> nat \<Rightarrow> (cls \<times> nat) list"
  and archive_calls :: "ty \<Rightarrow> (cls \<times> nat) list"
where
  "helper_calls C index =
     (C, index) #
     (if 0 < length (nonstatic_data_members_of C) \<and> index < length (nonstatic_data_members_of C) then
        (if index = 0 \<and> 0 < length (bases_of C) then parents_calls C 0 else []) @
        archive_calls (type_of (member_info C index)) @
        (if index + 1 < length (nonstatic_data_members_of C) then helper_calls C (index + 1) else [])
      else [])"
| "parents_calls C index =
     (if index < length (bases_of C) then
        helper_calls (bases_of C ! index) 0 @
        (if index + 1 < length (bases_of C) then parents_calls C (index + 1) else [])
      else [])"
| "archive_calls (ClassT C) = helper_calls C 0"
| "archive_calls (ScalarT t) = []"
| "archive_calls (SharedT t) = []"
  by pat_completeness auto
termination
  apply (relation "inv_image (less_than <*lex*> less_than <*lex*> less_than)
      (\<lambda>x. case x of
         Inl (C, index) \<Rightarrow> (size C, 2::nat, length (nonstatic_data_members_of C) - index)
       | Inr (Inl (C, index)) \<Rightarrow> (size C, 1, length (bases_of C) - index)
       | Inr (Inr T) \<Rightarrow> (size T, 0, 0))")
  apply (auto simp: size_member_type_less size_base_less)
  done

text \<open>
  How deep the invocations of \<^verbatim>\<open>saveHelper\<close> (or \<^verbatim>\<open>loadHelper\<close>) nest: one
  for the invocation itself, on top of the deepest of the calls it makes.
\<close>

function helper_depth :: "cls \<Rightarrow> nat \<Rightarrow> nat"
  and parents_depth :: "cls \<Rightarrow> nat \<Rightarrow> nat"
  and archive_depth :: "ty \<Rightarrow> nat"
where
  "helper_depth C index =
     Suc (if 0 < length (nonstatic_data_members_of C) \<and> index < length (nonstatic_data_members_of C) then
            max (if index = 0 \<and> 0 < length (bases_of C) then parents_depth C 0 else 0)
             (max (archive_depth (type_of (member_info C index)))
                (if index + 1 < length (nonstatic_data_members_of C)
                 then helper_depth C (index + 1) else 0))
          else 0)"
| "parents_depth C index =
     (if index < length (bases_of C) then
        max (helper_depth (bases_of C ! index) 0)
          (if index + 1 < length (bases_of C) then parents_depth C (index + 1) else 0)
      else 0)"
| "archive_depth (ClassT C) = helper_depth C 0"
| "archive_depth (ScalarT t) = 0"
| "archive_depth (SharedT t) = 0"
  by pat_completeness auto
termination
  apply (relation "inv_image (less_than <*lex*> less_than <*lex*> less_than)
      (\<lambda>x. case x of
         Inl (C, index) \<Rightarrow> (size C, 2::nat, length (nonstatic_data_members_of C) - index)
       | Inr (Inl (C, index)) \<Rightarrow> (size C, 1, length (bases_of C) - index)
       | Inr (Inr T) \<Rightarrow> (size T, 0, 0))")
  apply (auto simp: size_member_type_less size_base_less)
  done

text \<open>The number of levels of bases above a class.\<close>

function ancestor_levels :: "cls \<Rightarrow> nat" where
  "ancestor_levels C =
     (if bases_of C = [] then 0 else Suc (fold max (map ancestor_levels (bases_of C)) 0))"
  by pat_completeness auto
termination
  by (relation "measure size") (auto simp: size_base_mem_less)

text \<open>
  A class each of whose classes, itself and every ancestor, has exactly one
  member, of type \<^verbatim>\<open>int\<close> or \<^verbatim>\<open>std::string\<close>.
\<close>

fun is_scalar :: "ty \<Rightarrow> bool" where
  "is_scalar (ScalarT t) = True"
| "is_scalar (SharedT t) = False"
| "is_scalar (ClassT C) = False"

function one_plain_member :: "cls \<Rightarrow> bool" where
  "one_plain_member C =
     (length (nonstatic_data_members_of C) = 1 \<and>
      is_scalar (type_of (member_info C 0)) \<and>
      list_all one_plain_member (bases_of C))"
  by pat_completeness auto
termination
  by (relation "measure size") (auto simp: size_base_mem_less)

declare one_plain_member.simps [simp del]
declare helper_depth.simps [simp del] parents_depth.simps [simp del] ancestor_levels.simps [simp del]

text \<open>Every ordinal among the calls is below the member count of its class.\<close>

definition ordinals_in_range :: "(cls \<times> nat) list \<Rightarrow> bool" where
  "ordinals_in_range calls = list_all (\<lambda>(C, index). index < length (nonstatic_data_members_of C)) calls"

section \<open>The names in what was written\<close>

text \<open>
  The names that a text carries at nesting depth 0, in the order of the text,
  read at depth \<open>d\<close>: the opening of a node is named at the depth it opens at
  and what it holds lies one deeper. \<open>depth_after\<close> is the depth at the end.
\<close>

fun names_at :: "nat \<Rightarrow> token list \<Rightarrow> string option list" where
  "names_at d [] = []"
| "names_at d (Value name s # ts) = (if d = 0 then [name] else []) @ names_at d ts"
| "names_at d (StartNode name # ts) = (if d = 0 then [name] else []) @ names_at (Suc d) ts"
| "names_at d (FinishNode # ts) = names_at (d - 1) ts"
| "names_at d (NullPtr name # ts) = (if d = 0 then [name] else []) @ names_at d ts"
| "names_at d (NewPtr name i s # ts) = (if d = 0 then [name] else []) @ names_at d ts"
| "names_at d (BackRef name i # ts) = (if d = 0 then [name] else []) @ names_at d ts"

fun depth_after :: "nat \<Rightarrow> token list \<Rightarrow> nat" where
  "depth_after d [] = d"
| "depth_after d (StartNode name # ts) = depth_after (Suc d) ts"
| "depth_after d (FinishNode # ts) = depth_after (d - 1) ts"
| "depth_after d (t # ts) = depth_after d ts"

text \<open>A text that ends at the depth it starts at and names nothing above that depth.\<close>

definition level :: "token list \<Rightarrow> bool" where
  "level p = (\<forall>d. depth_after d p = d \<and> names_at (Suc d) p = [])"

text \<open>
  The member names of a class as one object holds them: those of its bases, base
  by base in declaration order, then its own in declaration order.
\<close>

function flat_names :: "cls \<Rightarrow> string list" where
  "flat_names C =
     concat (map flat_names (bases_of C)) @ map identifier_of (nonstatic_data_members_of C)"
  by pat_completeness auto
termination
  by (relation "measure size") (auto simp: size_base_mem_less)

declare flat_names.simps [simp del]

section \<open>Well-formed classes\<close>

text \<open>
  An identifier of the language is not empty and holds no NUL character.
\<close>

definition valid_identifier :: "string \<Rightarrow> bool" where
  "valid_identifier s = (s \<noteq> [] \<and> NUL \<notin> set s)"

definition valid_identifiers :: "cls \<Rightarrow> bool" where
  "valid_identifiers C = list_all (\<lambda>m. valid_identifier (identifier_of m)) (nonstatic_data_members_of C)"

text \<open>The two assertions of \<^verbatim>\<open>classMemberNames\<close> hold.\<close>

definition names_in_bounds :: "cls \<Rightarrow> bool" where
  "names_in_bounds C =
     (length (nonstatic_data_members_of C) < MAX_CLASS_MEMBERS - 1 \<and>
      list_all (\<lambda>m. length (identifier_of m) < MAX_IDENTIFIER_LENGTH) (nonstatic_data_members_of C))"

text \<open>Every static that is set holds what the constructor builds for its class.\<close>

definition statics_ok :: "statics \<Rightarrow> bool" where
  "statics_ok st = (\<forall>C s. stored st C = Some s \<longrightarrow> ClassSingleton_ctor C = Inr s)"


section \<open>Instances of a class, and when two are equal\<close>

text \<open>
  \<open>instance_of h C inst\<close>: \<open>inst\<close> is an instance of class \<open>C\<close> whose shared
  references point into the heap \<open>h\<close>: one subobject per base and one value per
  member, each of its declared type.
\<close>

function instance_of :: "heap \<Rightarrow> cls \<Rightarrow> obj \<Rightarrow> bool"
  and value_of :: "heap \<Rightarrow> ty \<Rightarrow> val \<Rightarrow> bool"
where
  "instance_of h C inst =
     (length (base_subobjects inst) = length (bases_of C) \<and>
      length (member_values inst) = length (nonstatic_data_members_of C) \<and>
      (\<forall>k < length (bases_of C). instance_of h (bases_of C ! k) (base_subobjects inst ! k)) \<and>
      (\<forall>i < length (nonstatic_data_members_of C).
          value_of h (type_of (member_info C i)) (member_values inst ! i)))"
| "value_of h (ScalarT t) v = (case v of ScalarV s \<Rightarrow> scalar_has_ty s t | _ \<Rightarrow> False)"
| "value_of h (SharedT t) v =
     (case v of
        SharedV None \<Rightarrow> True
      | SharedV (Some a) \<Rightarrow> a < length h \<and> scalar_has_ty (h ! a) t
      | _ \<Rightarrow> False)"
| "value_of h (ClassT C) v = (case v of ObjV inst \<Rightarrow> instance_of h C inst | _ \<Rightarrow> False)"
  by pat_completeness auto
termination
  apply (relation "measure (\<lambda>x. case x of Inl (h, C, inst) \<Rightarrow> size C | Inr (h, T, v) \<Rightarrow> size T)")
  apply (auto simp: size_member_type_less size_base_less)
  done

text \<open>
  Structural equality of two instances that live in two heaps: the same scalars,
  null where the other is null, shared references whose targets hold the same
  contents, and base subobjects and members equal in the same sense.
\<close>

fun structurally_equal :: "heap \<Rightarrow> val \<Rightarrow> heap \<Rightarrow> val \<Rightarrow> bool"
  and structurally_equal_obj :: "heap \<Rightarrow> obj \<Rightarrow> heap \<Rightarrow> obj \<Rightarrow> bool"
where
  "structurally_equal h (ScalarV s) h' v' = (v' = ScalarV s)"
| "structurally_equal h (SharedV None) h' v' = (v' = SharedV None)"
| "structurally_equal h (SharedV (Some a)) h' v' =
     (case v' of
        SharedV (Some b) \<Rightarrow> a < length h \<and> b < length h' \<and> h ! a = h' ! b
      | _ \<Rightarrow> False)"
| "structurally_equal h (ObjV inst) h' v' =
     (case v' of ObjV inst' \<Rightarrow> structurally_equal_obj h inst h' inst' | _ \<Rightarrow> False)"
| "structurally_equal_obj h (Obj bs vs) h' inst' =
     (list_all2 (\<lambda>b b'. structurally_equal_obj h b h' b') bs (base_subobjects inst') \<and>
      list_all2 (\<lambda>v v'. structurally_equal h v h' v') vs (member_values inst'))"

text \<open>
  Reading and writing through a shared reference.
\<close>

definition deref :: "heap \<Rightarrow> val \<Rightarrow> scalar option" where
  "deref h v = (case v of SharedV (Some b) \<Rightarrow> if b < length h then Some (h ! b) else None | _ \<Rightarrow> None)"

definition assign_through :: "heap \<Rightarrow> val \<Rightarrow> scalar \<Rightarrow> heap" where
  "assign_through h v x = (case v of SharedV (Some b) \<Rightarrow> h[b := x] | _ \<Rightarrow> h)"

section \<open>Save and load side by side\<close>

text \<open>
  The notions used to follow a load along the save that wrote its input.
  \<open>skeleton\<close> is the shape of an instance without the types of its scalars;
  \<open>extends\<close> says an archive has only been written further; \<open>target_of\<close>
  maps a saved target to the target that the load built for it, through the
  identity both registries hold; \<open>rel_val\<close> and \<open>rel_obj\<close> relate a saved
  value to the loaded one, shared references by \<open>target_of\<close>; \<open>synced\<close> holds
  when the load has read exactly what the save has written so far of the whole
  text, and every registered target has its counterpart with the same contents.
\<close>

function skeleton :: "cls \<Rightarrow> obj \<Rightarrow> bool"
  and skeleton_val :: "ty \<Rightarrow> val \<Rightarrow> bool"
where
  "skeleton C inst =
     (length (base_subobjects inst) = length (bases_of C) \<and>
      length (member_values inst) = length (nonstatic_data_members_of C) \<and>
      (\<forall>k < length (bases_of C). skeleton (bases_of C ! k) (base_subobjects inst ! k)) \<and>
      (\<forall>i < length (nonstatic_data_members_of C).
          skeleton_val (type_of (member_info C i)) (member_values inst ! i)))"
| "skeleton_val (ClassT C) v = (case v of ObjV inst \<Rightarrow> skeleton C inst | _ \<Rightarrow> False)"
| "skeleton_val (ScalarT t) v = True"
| "skeleton_val (SharedT t) v = True"
  by pat_completeness auto
termination
  apply (relation "measure (\<lambda>x. case x of Inl (C, inst) \<Rightarrow> size C | Inr (T, v) \<Rightarrow> size T)")
  apply (auto simp: size_member_type_less size_base_less)
  done

declare skeleton.simps [simp del] instance_of.simps [simp del]

definition extends :: "OutputArchive \<Rightarrow> OutputArchive \<Rightarrow> bool" where
  "extends ar ar' = (out_backend ar' = out_backend ar \<and> prefix (out_stream ar) (out_stream ar'))"

fun rel_val :: "(addr \<rightharpoonup> addr) \<Rightarrow> val \<Rightarrow> val \<Rightarrow> bool"
  and rel_obj :: "(addr \<rightharpoonup> addr) \<Rightarrow> obj \<Rightarrow> obj \<Rightarrow> bool"
where
  "rel_val r (ScalarV s) v' = (v' = ScalarV s)"
| "rel_val r (SharedV None) v' = (v' = SharedV None)"
| "rel_val r (SharedV (Some a)) v' = (case r a of None \<Rightarrow> False | Some b \<Rightarrow> v' = SharedV (Some b))"
| "rel_val r (ObjV inst) v' = (case v' of ObjV inst' \<Rightarrow> rel_obj r inst inst' | _ \<Rightarrow> False)"
| "rel_obj r (Obj bs vs) inst' =
     (list_all2 (rel_obj r) bs (base_subobjects inst') \<and>
      list_all2 (rel_val r) vs (member_values inst'))"

definition target_of :: "OutputArchive \<Rightarrow> InputArchive \<Rightarrow> addr \<rightharpoonup> addr" where
  "target_of ar iar a =
     (case map_of (out_shared ar) a of None \<Rightarrow> None | Some i \<Rightarrow> map_of (in_shared iar) i)"

definition synced :: "heap \<Rightarrow> OutputArchive \<Rightarrow> InputArchive \<Rightarrow> heap \<Rightarrow> token list \<Rightarrow> bool" where
  "synced hS ar iar hL whole =
     (in_backend iar = out_backend ar \<and>
      out_stream ar @ in_stream iar = whole \<and>
      (\<forall>a i. map_of (out_shared ar) a = Some i \<longrightarrow>
         i \<le> length (out_shared ar) \<and>
         (\<exists>b. map_of (in_shared iar) i = Some b \<and> a < length hS \<and> b < length hL \<and> hL ! b = hS ! a)))"

text \<open>Archives of any backend on a stream, with an empty registry.\<close>

definition OutputArchive_on :: "backend \<Rightarrow> token list \<Rightarrow> OutputArchive" where
  "OutputArchive_on b stream = \<lparr> out_backend = b, out_stream = stream, out_shared = [] \<rparr>"

definition InputArchive_on :: "backend \<Rightarrow> token list \<Rightarrow> InputArchive" where
  "InputArchive_on b stream = \<lparr> in_backend = b, in_stream = stream, in_shared = [] \<rparr>"

text \<open>
  The classes named by the calls get their singletons: the assertions of
  \<^verbatim>\<open>classMemberNames\<close> hold and the identifiers are identifiers.
\<close>

definition descriptors_valid :: "(cls \<times> nat) list \<Rightarrow> bool" where
  "descriptors_valid calls = list_all (\<lambda>(C, index). names_in_bounds C \<and> valid_identifiers C) calls"

text \<open>
  How often the stream holds the first occurrence of the shared target with
  identity \<open>i\<close>, and the invariant of an output archive: each identity handed
  out so far has exactly one first occurrence in the stream.
\<close>

definition first_occurrence_of :: "nat \<Rightarrow> token \<Rightarrow> bool" where
  "first_occurrence_of i t = (case t of NewPtr name j s \<Rightarrow> j = i | _ \<Rightarrow> False)"

definition first_occurrences :: "nat \<Rightarrow> token list \<Rightarrow> nat" where
  "first_occurrences i ts = length (filter (first_occurrence_of i) ts)"

definition counted :: "OutputArchive \<Rightarrow> bool" where
  "counted ar =
     ((\<forall>i. first_occurrences i (out_stream ar) = (if 1 \<le> i \<and> i \<le> length (out_shared ar) then 1 else 0)) \<and>
      (\<forall>a i. map_of (out_shared ar) a = Some i \<longrightarrow> 1 \<le> i \<and> i \<le> length (out_shared ar)))"

section \<open>Classes of the tests\<close>

text \<open>\<^verbatim>\<open>struct SerialPleh { int foo; std::string bar; }\<close> and an instance of it.\<close>

definition Pleh :: cls where
  "Pleh = Class [(''foo'', ScalarT IntT), (''bar'', ScalarT StringT)] []"

definition pleh :: obj where
  "pleh = Obj [] [ScalarV (IntV 1), ScalarV (StringV ''PLEH!'')]"

text \<open>The classes of the inheritance test, and an instance with \<open>foo = 22\<close>, \<open>bar = 42\<close>.\<close>

definition Parent :: cls where
  "Parent = Class [(''foo'', ScalarT IntT)] []"

definition Child :: cls where
  "Child = Class [(''bar'', ScalarT IntT)] [Parent]"

definition child :: obj where
  "child = Obj [Obj [] [ScalarV (IntV 22)]] [ScalarV (IntV 42)]"

text \<open>A class that adds no member to its base, an instance of it, and a class with nothing.\<close>

definition Derived :: cls where
  "Derived = Class [] [Parent]"

definition derived :: obj where
  "derived = Obj [Obj [] [ScalarV (IntV 22)]] []"

definition Empty :: cls where
  "Empty = Class [] []"

text \<open>
  A class with a member of its own whose base \<open>Derived\<close> has none, and a class
  whose base has a member name of 256 characters, each with an instance.
\<close>

definition HasDerivedBase :: cls where
  "HasDerivedBase = Class [(''own'', ScalarT IntT)] [Derived]"

definition has_derived_base :: obj where
  "has_derived_base = Obj [derived] [ScalarV (IntV 7)]"

definition LongName :: cls where
  "LongName = Class [(replicate 256 CHR ''a'', ScalarT IntT)] []"

definition HasLongNameBase :: cls where
  "HasLongNameBase = Class [(''own'', ScalarT IntT)] [LongName]"

definition has_long_name_base :: obj where
  "has_long_name_base = Obj [Obj [] [ScalarV (IntV 0)]] [ScalarV (IntV 7)]"

text \<open>A default-constructed \<open>SerialPleh\<close> to load into, and the text of \<open>pleh\<close>.\<close>

definition pleh_copy :: obj where
  "pleh_copy = Obj [] [ScalarV (IntV 0), ScalarV (StringV [])]"

definition pleh_json :: "token list" where
  "pleh_json = [StartNode None, Value (Some ''foo'') (IntV 1),
                Value (Some ''bar'') (StringV ''PLEH!''), FinishNode]"

text \<open>
  A class with two shared references, an instance whose two members share one
  target (at address 0 of the heap), and a default instance to load into.
\<close>

definition Wibble :: cls where
  "Wibble = Class [(''wobble'', SharedT StringT), (''wubble'', SharedT StringT)] []"

definition wibble :: obj where
  "wibble = Obj [] [SharedV (Some 0), SharedV (Some 0)]"

definition wibble_copy :: obj where
  "wibble_copy = Obj [] [SharedV None, SharedV None]"

text \<open>A default-constructed \<open>Child\<close> to load into.\<close>

definition child_copy :: obj where
  "child_copy = Obj [Obj [] [ScalarV (IntV 0)]] [ScalarV (IntV 0)]"

text \<open>The text of \<open>child\<close>.\<close>

definition child_json :: "token list" where
  "child_json = [StartNode None, Value (Some ''foo'') (IntV 22), Value (Some ''bar'') (IntV 42), FinishNode]"

definition Pleh_singleton :: ClassSingleton where
  "Pleh_singleton = \<lparr> memberNamesStrings = [''foo'', ''bar''], memberCount = 2, baseCount = 0, bases = [] \<rparr>"


text \<open>A class of 255 members named \<open>a\<close>, \<open>aa\<close>, \<open>aaa\<close>, and so on.\<close>

definition many_members :: cls where
  "many_members = Class (map (\<lambda>i. (replicate (Suc i) CHR ''a'', ScalarT IntT)) [0..<255]) []"

section \<open>Properties of the singleton\<close>

lemma and_then_Inl [simp]: "and_then (Inl e) f = Inl e"
  by (simp add: and_then_def)

lemma and_then_Inr [simp]: "and_then (Inr x) f = f x"
  by (simp add: and_then_def)

lemma and_then_eq_Inr: "and_then m f = Inr y \<longleftrightarrow> (\<exists>x. m = Inr x \<and> f x = Inr y)"
  by (cases m) auto

lemma and_then_eq_Inl: "and_then m f = Inl e \<longleftrightarrow> m = Inl e \<or> (\<exists>x. m = Inr x \<and> f x = Inl e)"
  by (cases m) auto

lemma copy_member_names_fails:
  "copy_member_names ms k names = Inl e \<longleftrightarrow>
     e = ConstevalAssert \<and>
     (\<exists>j. k \<le> j \<and> j < length ms \<and> \<not> length (identifier_of (ms ! j)) < MAX_IDENTIFIER_LENGTH)"
proof (induction ms k names rule: copy_member_names.induct)
  case (1 members memberIndex names)
  show ?case
  proof (cases "memberIndex < length members")
    case False
    then show ?thesis by (subst copy_member_names.simps) auto
  next
    case True
    show ?thesis
    proof (cases "length (identifier_of (members ! memberIndex)) < MAX_IDENTIFIER_LENGTH")
      case False
      then show ?thesis using True by (subst copy_member_names.simps) (auto simp: Let_def)
    next
      case ok: True
      have "copy_member_names members memberIndex names =
            copy_member_names members (memberIndex + 1)
              (names[memberIndex := std_copy (identifier_of (members ! memberIndex)) (names ! memberIndex)])"
        using True ok by (subst copy_member_names.simps) (simp add: Let_def)
      moreover have "(\<exists>j. memberIndex \<le> j \<and> j < length members \<and> \<not> length (identifier_of (members ! j)) < MAX_IDENTIFIER_LENGTH)
         \<longleftrightarrow> (\<exists>j. memberIndex + 1 \<le> j \<and> j < length members \<and> \<not> length (identifier_of (members ! j)) < MAX_IDENTIFIER_LENGTH)"
        using ok by (metis Suc_eq_plus1 Suc_leI le_eq_less_or_eq Suc_leD)
      ultimately show ?thesis using 1 [OF True refl] ok by simp
    qed
  qed
qed

lemma copy_member_names_ok:
  "copy_member_names ms k names = Inr names' \<Longrightarrow>
     length names' = length names \<and>
     (\<forall>j < length names. names' ! j =
        (if k \<le> j \<and> j < length ms then std_copy (identifier_of (ms ! j)) (names ! j) else names ! j))"
proof (induction ms k names arbitrary: names' rule: copy_member_names.induct)
  case (1 members memberIndex names)
  show ?case
  proof (cases "memberIndex < length members")
    case False
    then show ?thesis using "1.prems" by (subst (asm) copy_member_names.simps) auto
  next
    case True
    show ?thesis
    proof (cases "length (identifier_of (members ! memberIndex)) < MAX_IDENTIFIER_LENGTH")
      case False
      then show ?thesis using True "1.prems" by (subst (asm) copy_member_names.simps) (auto simp: Let_def)
    next
      case ok: True
      let ?names1 = "names[memberIndex := std_copy (identifier_of (members ! memberIndex)) (names ! memberIndex)]"
      have "copy_member_names members (memberIndex + 1) ?names1 = Inr names'"
        using True ok "1.prems" by (subst (asm) copy_member_names.simps) (simp add: Let_def)
      from 1(1) [OF True refl _ this] ok
      have IH: "length names' = length ?names1"
         "\<forall>j<length ?names1. names' ! j =
             (if memberIndex + 1 \<le> j \<and> j < length members
              then std_copy (identifier_of (members ! j)) (?names1 ! j) else ?names1 ! j)"
        by auto
      show ?thesis
      proof (intro conjI allI impI)
        show "length names' = length names" using IH(1) by simp
      next
        fix j assume j: "j < length names"
        then have "names' ! j = (if memberIndex + 1 \<le> j \<and> j < length members
              then std_copy (identifier_of (members ! j)) (?names1 ! j) else ?names1 ! j)"
          using IH(2) by simp
        then show "names' ! j = (if memberIndex \<le> j \<and> j < length members
              then std_copy (identifier_of (members ! j)) (names ! j) else names ! j)"
          using j True by (cases "j = memberIndex") auto
      qed
    qed
  qed
qed


lemma restringify_total:
  "\<forall>j < length tbl. 0 < length (tbl ! j) \<Longrightarrow> idx \<le> n \<Longrightarrow> n < length tbl \<Longrightarrow>
   (tbl ! n) ! 0 = NUL \<Longrightarrow> \<exists>strings. restringify tbl idx acc = Inr strings"
proof (induction tbl idx acc rule: restringify.induct)
  case (1 memberNames idx strings)
  have idx: "idx < length memberNames" and row: "0 < length (memberNames ! idx)"
    using "1.prems" by auto
  show ?case
  proof (cases "(memberNames ! idx) ! 0 = NUL")
    case True
    then show ?thesis using idx row by (subst restringify.simps) simp
  next
    case False
    then have "idx \<noteq> n" using "1.prems" by auto
    then have "idx + 1 \<le> n" using "1.prems" by simp
    from "1.IH" [OF _ _ False "1.prems"(1) this "1.prems"(3,4)] idx row
    obtain strings' where
      "restringify memberNames (idx + 1) (strings @ [c_str (memberNames ! idx)]) = Inr strings'"
      by auto
    then show ?thesis using idx row False by (subst restringify.simps) simp
  qed
qed

lemma c_str_std_copy:
  "NUL \<notin> set s \<Longrightarrow> c_str (std_copy s (replicate k NUL)) = s"
proof -
  have "takeWhile (\<lambda>c. c \<noteq> NUL) (s @ replicate m NUL) = s" if "NUL \<notin> set s" for m
    using that by (induction s) (auto simp: takeWhile_replicate)
  then show "NUL \<notin> set s \<Longrightarrow> c_str (std_copy s (replicate k NUL)) = s"
    by (simp add: c_str_def std_copy_def)
qed

lemma restringify_names:
  "\<forall>j. idx \<le> j \<and> j < n \<longrightarrow>
       tbl ! j = std_copy (name j) (replicate k NUL) \<and> valid_identifier (name j) \<Longrightarrow>
   idx \<le> n \<Longrightarrow> n < length tbl \<Longrightarrow> 0 < length (tbl ! n) \<Longrightarrow> (tbl ! n) ! 0 = NUL \<Longrightarrow>
   restringify tbl idx acc = Inr (acc @ map name [idx..<n])"
proof (induction tbl idx acc rule: restringify.induct)
  case (1 memberNames idx strings)
  have idx: "idx < length memberNames" using "1.prems" by auto
  show ?case
  proof (cases "idx = n")
    case True
    then show ?thesis using "1.prems" by (subst restringify.simps) simp
  next
    case False
    then have lt: "idx < n" using "1.prems" by simp
    then have row: "memberNames ! idx = std_copy (name idx) (replicate k NUL)"
      and v: "valid_identifier (name idx)" using "1.prems"(1) by auto
    have nz: "0 < length (memberNames ! idx)" "(memberNames ! idx) ! 0 \<noteq> NUL"
      using v by (auto simp: row std_copy_def valid_identifier_def nth_append neq_Nil_conv)
    have cs: "c_str (memberNames ! idx) = name idx"
      using v by (simp add: row c_str_std_copy valid_identifier_def)
    have "restringify memberNames (idx + 1) (strings @ [c_str (memberNames ! idx)])
          = Inr ((strings @ [c_str (memberNames ! idx)]) @ map name [idx + 1..<n])"
      using "1.prems" lt by (intro "1.IH") (use idx nz in auto)
    then show ?thesis
      using idx nz lt by (subst restringify.simps) (simp add: cs upt_conv_Cons)
  qed
qed

lemma classMemberNames_fails:
  "classMemberNames C = Inl e \<longleftrightarrow> e = ConstevalAssert \<and> \<not> names_in_bounds C"
  by (auto simp: classMemberNames_def Let_def copy_member_names_fails names_in_bounds_def
        list_all_length)

lemma classMemberNames_table:
  assumes "classMemberNames C = Inr tbl"
  shows "length tbl = MAX_CLASS_MEMBERS"
    and "\<And>j. j < MAX_CLASS_MEMBERS \<Longrightarrow> tbl ! j =
        (if j < length (nonstatic_data_members_of C)
         then std_copy (identifier_of (nonstatic_data_members_of C ! j)) (replicate MAX_IDENTIFIER_LENGTH NUL)
         else replicate MAX_IDENTIFIER_LENGTH NUL)"
  using assms copy_member_names_ok [of "nonstatic_data_members_of C" 0
      "replicate MAX_CLASS_MEMBERS (replicate MAX_IDENTIFIER_LENGTH NUL)" tbl]
  by (auto simp: classMemberNames_def Let_def split: if_splits)

lemma ClassSingleton_ctor_fails:
  "ClassSingleton_ctor C = Inl e \<longleftrightarrow> e = ConstevalAssert \<and> \<not> names_in_bounds C"
proof (cases "classMemberNames C")
  case (Inl e')
  then show ?thesis using classMemberNames_fails [of C e'] classMemberNames_fails [of C e]
    by (auto simp: ClassSingleton_ctor_def)
next
  case (Inr tbl)
  then have nb: "names_in_bounds C" using classMemberNames_fails [of C ConstevalAssert]
    by auto
  let ?n = "length (nonstatic_data_members_of C)"
  have n: "?n < MAX_CLASS_MEMBERS" using nb by (simp add: names_in_bounds_def MAX_CLASS_MEMBERS_def)
  have "\<exists>strings. restringify tbl 0 [] = Inr strings"
  proof (rule restringify_total [where n = ?n])
    show "\<forall>j<length tbl. 0 < length (tbl ! j)"
      using classMemberNames_table [OF Inr]
      by (auto simp: std_copy_def MAX_IDENTIFIER_LENGTH_def)
    show "?n < length tbl" using classMemberNames_table(1) [OF Inr] n by simp
    show "(tbl ! ?n) ! 0 = NUL"
      using classMemberNames_table(2) [OF Inr n] by (simp add: MAX_IDENTIFIER_LENGTH_def)
  qed simp
  then show ?thesis using Inr nb by (auto simp: ClassSingleton_ctor_def)
qed

lemma ClassSingleton_ctor_ok:
  assumes nb: "names_in_bounds C" and vi: "valid_identifiers C"
  shows "ClassSingleton_ctor C =
     Inr \<lparr> memberNamesStrings = map identifier_of (nonstatic_data_members_of C),
           memberCount = length (nonstatic_data_members_of C),
           baseCount = length (bases_of C), bases = bases_of C \<rparr>"
proof -
  let ?ms = "nonstatic_data_members_of C"
  let ?n = "length ?ms"
  obtain tbl where tbl: "classMemberNames C = Inr tbl"
    using nb classMemberNames_fails [of C] by (cases "classMemberNames C") auto
  have n: "?n < MAX_CLASS_MEMBERS" using nb by (simp add: names_in_bounds_def MAX_CLASS_MEMBERS_def)
  have "restringify tbl 0 [] = Inr ([] @ map (\<lambda>j. identifier_of (?ms ! j)) [0..<?n])"
  proof (rule restringify_names [where k = MAX_IDENTIFIER_LENGTH])
    show "\<forall>j. 0 \<le> j \<and> j < ?n \<longrightarrow>
        tbl ! j = std_copy (identifier_of (?ms ! j)) (replicate MAX_IDENTIFIER_LENGTH NUL) \<and>
        valid_identifier (identifier_of (?ms ! j))"
      using classMemberNames_table(2) [OF tbl] n vi
      by (auto simp: valid_identifiers_def list_all_length)
    show "?n < length tbl" using classMemberNames_table(1) [OF tbl] n by simp
    show "0 < length (tbl ! ?n)" "(tbl ! ?n) ! 0 = NUL"
      using classMemberNames_table(2) [OF tbl n] by (simp_all add: MAX_IDENTIFIER_LENGTH_def)
  qed simp
  moreover have "map (\<lambda>j. identifier_of (?ms ! j)) [0..<?n] = map identifier_of ?ms"
    by (rule nth_equalityI) simp_all
  ultimately show ?thesis using tbl by (simp add: ClassSingleton_ctor_def)
qed


lemma Pleh_ok: "names_in_bounds Pleh" "valid_identifiers Pleh"
  by (simp_all add: names_in_bounds_def valid_identifiers_def valid_identifier_def Pleh_def
        identifier_of_def MAX_CLASS_MEMBERS_def MAX_IDENTIFIER_LENGTH_def NUL_def)

lemma ClassSingleton_ctor_Pleh: "ClassSingleton_ctor Pleh = Inr Pleh_singleton"
  using ClassSingleton_ctor_ok [OF Pleh_ok]
  by (simp add: Pleh_def Pleh_singleton_def identifier_of_def)

lemma ClassSingleton_ctor_Parent:
  "ClassSingleton_ctor Parent = Inr \<lparr> memberNamesStrings = [''foo''], memberCount = 1, baseCount = 0, bases = [] \<rparr>"
  using ClassSingleton_ctor_ok [of Parent]
  by (simp add: names_in_bounds_def valid_identifiers_def valid_identifier_def Parent_def
        identifier_of_def MAX_CLASS_MEMBERS_def MAX_IDENTIFIER_LENGTH_def NUL_def)

lemma ClassSingleton_ctor_Child:
  "ClassSingleton_ctor Child = Inr \<lparr> memberNamesStrings = [''bar''], memberCount = 1, baseCount = 1, bases = [Parent] \<rparr>"
  using ClassSingleton_ctor_ok [of Child]
  by (simp add: names_in_bounds_def valid_identifiers_def valid_identifier_def Child_def
        identifier_of_def MAX_CLASS_MEMBERS_def MAX_IDENTIFIER_LENGTH_def NUL_def)

text \<open>
  C4. Building the singleton of a class fails exactly when the class has
  \<open>MAX_CLASS_MEMBERS - 1\<close> or more data members, or a member whose
  identifier has \<open>MAX_IDENTIFIER_LENGTH\<close> or more characters, and the failure
  is that of an assertion in a \<^verbatim>\<open>consteval\<close> function, which stops the build.
  A class within both bounds gets its singleton, and the names held are the
  identifiers in full and in declaration order: nothing is cut short.
\<close>

theorem ClassSingleton_bounds:
  "(ClassSingleton_ctor C = Inl e \<longleftrightarrow>
      e = ConstevalAssert \<and>
      (MAX_CLASS_MEMBERS - 1 \<le> length (nonstatic_data_members_of C) \<or>
       \<not> list_all (\<lambda>m. length (identifier_of m) < MAX_IDENTIFIER_LENGTH)
            (nonstatic_data_members_of C))) \<and>
   (names_in_bounds C \<longrightarrow> valid_identifiers C \<longrightarrow>
      (\<exists>s. ClassSingleton_ctor C = Inr s \<and>
           getMemberNames s = map identifier_of (nonstatic_data_members_of C) \<and>
           memberCount s = length (nonstatic_data_members_of C)))"
  using ClassSingleton_ctor_ok [of C]
  by (auto simp: ClassSingleton_ctor_fails names_in_bounds_def getMemberNames_def)

theorem ClassSingleton_bounds_witness:
  "names_in_bounds Pleh \<and> valid_identifiers Pleh \<and>
   (\<exists>s. ClassSingleton_ctor Pleh = Inr s \<and> getMemberNames s = [''foo'', ''bar''] \<and>
        memberCount s = 2)"
  using ClassSingleton_bounds [of Pleh ConstevalAssert] Pleh_ok
  by (auto simp: Pleh_def identifier_of_def)

text \<open>
  A class of 255 members, each identifier shorter than 256 characters, is under
  both configured maxima of 256, and its singleton is refused.
\<close>

theorem many_members_rejected:
  "length (nonstatic_data_members_of many_members) < MAX_CLASS_MEMBERS \<and>
   list_all (\<lambda>m. length (identifier_of m) < MAX_IDENTIFIER_LENGTH)
     (nonstatic_data_members_of many_members) \<and>
   ClassSingleton_ctor many_members = Inl ConstevalAssert"
  by (simp add: ClassSingleton_ctor_fails names_in_bounds_def many_members_def
        MAX_CLASS_MEMBERS_def MAX_IDENTIFIER_LENGTH_def list_all_iff identifier_of_def)

text \<open>
  What \<^verbatim>\<open>instance()\<close> returns does not depend on which call came first: on
  statics that hold only constructed singletons it returns the constructed
  singleton of the class, or fails as the constructor does.
\<close>

lemma ClassSingleton_instance_value:
  "statics_ok st \<Longrightarrow>
     (ClassSingleton_instance st C = Inl e \<longleftrightarrow> ClassSingleton_ctor C = Inl e) \<and>
     (ClassSingleton_instance st C = Inr (s, st') \<longrightarrow> ClassSingleton_ctor C = Inr s \<and> statics_ok st')"
  by (cases "ClassSingleton_ctor C")
     (auto simp: ClassSingleton_instance_def statics_ok_def split: option.splits if_splits)








section \<open>The recursion by index is a loop\<close>

lemma and_then_assoc: "and_then (and_then m f) g = and_then m (\<lambda>x. and_then (f x) g)"
  by (cases m) auto

lemma and_then_Inr_right [simp]: "and_then m Inr = m"
  by (cases m) auto

lemma for_each_Nil_fun [simp]: "for_each [] step = Inr"
  by (rule ext) simp

lemma for_each_Cons_fun: "for_each (i # is) step = (\<lambda>s. and_then (step i s) (for_each is step))"
  by (rule ext) simp

lemma upt_step: "i < n \<Longrightarrow> [i..<n] = i # [Suc i..<n]"
  by (simp add: upt_conv_Cons)

lemma saveHelper_template_arg:
  "saveHelper h ar C n index inst = saveHelper h ar C m index inst"
  by (simp add: saveHelper.simps)

lemma loadHelper_template_arg:
  "loadHelper ar h C n index inst = loadHelper ar h C m index inst"
  by (simp add: loadHelper.simps)

lemma save_fields_loop:
  assumes ctor: "ClassSingleton_ctor C = Inr s"
    and len: "length (member_values inst) = memberCount s"
  shows "0 < index \<Longrightarrow> index < memberCount s \<Longrightarrow>
     saveHelper h ar C n index inst = for_each [index..<memberCount s] (save_field_step h C s inst) ar"
proof (induction "memberCount s - index" arbitrary: index ar n)
  case 0
  then show ?case by simp
next
  case (Suc d)
  show ?case
  proof (cases "index + 1 < memberCount s")
    case True
    have "saveHelper h ar2 C (memberCount s) (index + 1) inst
          = for_each [index + 1..<memberCount s] (save_field_step h C s inst) ar2" for ar2
      using Suc.hyps(1) [of "index + 1"] Suc.hyps(2) True by simp
    then show ?thesis
      using Suc.prems True ctor len
      by (simp add: saveHelper.simps [of h ar C n index] upt_step [of index] save_field_step_def
            and_then_assoc)
  next
    case False
    then have "[index..<memberCount s] = [index]" using Suc.prems by (simp add: upt_step)
    then show ?thesis
      using Suc.prems False ctor len
      by (simp add: saveHelper.simps [of h ar C n index] save_field_step_def)
  qed
qed

lemma save_parents_loop:
  assumes ctor: "ClassSingleton_ctor C = Inr s"
    and len: "length (base_subobjects inst) = baseCount s"
  shows "index < baseCount s \<Longrightarrow>
     saveParents h ar C index inst = for_each [index..<baseCount s] (save_base_step h C inst) ar"
proof (induction "baseCount s - index" arbitrary: index ar)
  case 0
  then show ?case by simp
next
  case (Suc d)
  note cnt = ClassSingleton_ctor_counts [OF ctor]
  have step: "and_then (ClassSingleton_ctor (bases_of C ! index)) (\<lambda>parentInstance.
             and_then (saveHelper h ar (bases_of C ! index) (memberCount parentInstance) 0
                         (static_cast_base inst index)) f)
        = and_then (save_base_step h C inst index ar) f" for f
    by (cases "ClassSingleton_ctor (bases_of C ! index)")
       (simp_all add: save_base_step_def save.simps)
  show ?case
  proof (cases "index + 1 < baseCount s")
    case True
    have "saveParents h ar1 C (index + 1) inst
          = for_each [index + 1..<baseCount s] (save_base_step h C inst) ar1" for ar1
      using Suc.hyps(1) [of "index + 1"] Suc.hyps(2) True by simp
    then show ?thesis
      using Suc.prems True ctor len cnt
      by (simp add: saveParents.simps [of h ar C index] upt_step [of index] step)
  next
    case False
    then have "[index..<baseCount s] = [index]" using Suc.prems by (simp add: upt_step)
    then show ?thesis
      using Suc.prems False ctor len cnt
      using step [of Inr] by (simp add: saveParents.simps [of h ar C index])
  qed
qed

lemma save_loops:
  assumes ctor: "ClassSingleton_ctor C = Inr s"
    and mc: "0 < memberCount s"
    and lenb: "length (base_subobjects inst) = baseCount s"
    and lenm: "length (member_values inst) = memberCount s"
  shows "saveHelper h ar C n 0 inst =
     and_then (for_each [0..<baseCount s] (save_base_step h C inst) ar)
       (for_each [0..<memberCount s] (save_field_step h C s inst))"
proof -
  have parents: "(if 0 < baseCount s then saveParents h ar C 0 inst else Inr ar)
        = for_each [0..<baseCount s] (save_base_step h C inst) ar"
    using save_parents_loop [OF ctor lenb, of 0 h ar] by simp
  have rest: "(if 1 < memberCount s then saveHelper h ar2 C (memberCount s) 1 inst else Inr ar2)
        = for_each [1..<memberCount s] (save_field_step h C s inst) ar2" for ar2
    using save_fields_loop [OF ctor lenm, of 1 h ar2] by simp
  show ?thesis
    using mc ctor lenm rest
    by (simp add: saveHelper.simps [of h ar C n 0] parents upt_step [of 0] save_field_step_def
          and_then_assoc for_each_Cons_fun cong: if_cong)
qed


lemma member_ref_assign_simps [simp]:
  "member_values (member_ref_assign inst i v) = (member_values inst)[i := v]"
  "base_subobjects (member_ref_assign inst i v) = base_subobjects inst"
  by (simp_all add: member_ref_assign_def)

lemma static_cast_base_assign_simps [simp]:
  "member_values (static_cast_base_assign inst k b) = member_values inst"
  "base_subobjects (static_cast_base_assign inst k b) = (base_subobjects inst)[k := b]"
  by (simp_all add: static_cast_base_assign_def)

lemma load_fields_loop:
  assumes ctor: "ClassSingleton_ctor C = Inr s"
  shows "length (member_values inst) = memberCount s \<Longrightarrow> 0 < index \<Longrightarrow> index < memberCount s \<Longrightarrow>
     loadHelper ar h C n index inst
       = for_each [index..<memberCount s] (load_field_step C) (inst, ar, h)"
proof (induction "memberCount s - index" arbitrary: index ar h inst n)
  case 0
  then show ?case by simp
next
  case (Suc d)
  show ?case
  proof (cases "index + 1 < memberCount s")
    case True
    have "loadHelper ar2 h2 C (memberCount s) (index + 1) (member_ref_assign inst index v)
          = for_each [index + 1..<memberCount s] (load_field_step C)
              (member_ref_assign inst index v, ar2, h2)" for ar2 h2 v
      using Suc.hyps(1) [of "index + 1" "member_ref_assign inst index v"] Suc.hyps(2) True Suc.prems(1)
      by simp
    then show ?thesis
      using Suc.prems True ctor
      by (simp add: loadHelper.simps [of ar h C n index] upt_step [of index] load_field_step_def
            and_then_assoc split_def cong: if_cong)
  next
    case False
    then have "[index..<memberCount s] = [index]" using Suc.prems by (simp add: upt_step)
    then show ?thesis
      using Suc.prems False ctor
      by (simp add: loadHelper.simps [of ar h C n index] load_field_step_def split_def)
  qed
qed

lemma load_parents_loop:
  assumes ctor: "ClassSingleton_ctor C = Inr s"
  shows "length (base_subobjects inst) = baseCount s \<Longrightarrow> index < baseCount s \<Longrightarrow>
     loadParents ar h C index inst
       = for_each [index..<baseCount s] (load_base_step C) (inst, ar, h)"
proof (induction "baseCount s - index" arbitrary: index ar h inst)
  case 0
  then show ?case by simp
next
  case (Suc d)
  note cnt = ClassSingleton_ctor_counts [OF ctor]
  have step: "and_then (ClassSingleton_ctor (bases_of C ! index)) (\<lambda>parentInstance.
             and_then (loadHelper ar h (bases_of C ! index) (memberCount parentInstance) 0
                         (static_cast_base inst index)) f)
        = and_then (load ar h (bases_of C ! index) (static_cast_base inst index)) f" for f
    by (cases "ClassSingleton_ctor (bases_of C ! index)") (simp_all add: load.simps)
  show ?case
  proof (cases "index + 1 < baseCount s")
    case True
    have "loadParents ar1 h1 C (index + 1) (static_cast_base_assign inst index b)
          = for_each [index + 1..<baseCount s] (load_base_step C)
              (static_cast_base_assign inst index b, ar1, h1)" for ar1 h1 b
      using Suc.hyps(1) [of "index + 1" "static_cast_base_assign inst index b"] Suc.hyps(2) True
        Suc.prems(1) by simp
    then show ?thesis
      using Suc.prems True ctor cnt
      by (simp add: loadParents.simps [of ar h C index] upt_step [of index] step load_base_step_def
            and_then_assoc split_def cong: if_cong)
  next
    case False
    then have "[index..<baseCount s] = [index]" using Suc.prems by (simp add: upt_step)
    then show ?thesis
      using Suc.prems False ctor cnt
      by (simp add: loadParents.simps [of ar h C index] step load_base_step_def split_def)
  qed
qed

lemma load_base_steps_keep:
  "for_each ks (load_base_step C) (inst, ar, h) = Inr (inst1, ar1, h1) \<Longrightarrow>
     member_values inst1 = member_values inst \<and>
     length (base_subobjects inst1) = length (base_subobjects inst)"
proof (induction ks arbitrary: inst ar h)
  case Nil
  then show ?case by simp
next
  case (Cons k ks)
  from Cons.prems obtain inst2 ar2 h2 where
    1: "load_base_step C k (inst, ar, h) = Inr (inst2, ar2, h2)"
    and 2: "for_each ks (load_base_step C) (inst2, ar2, h2) = Inr (inst1, ar1, h1)"
    by (auto simp: and_then_eq_Inr)
  from 1 have "member_values inst2 = member_values inst"
    "length (base_subobjects inst2) = length (base_subobjects inst)"
    by (auto simp: load_base_step_def and_then_eq_Inr)
  with Cons.IH [OF 2] show ?case by simp
qed

lemma load_loops:
  assumes ctor: "ClassSingleton_ctor C = Inr s"
    and mc: "0 < memberCount s"
    and lenb: "length (base_subobjects inst) = baseCount s"
    and lenm: "length (member_values inst) = memberCount s"
  shows "loadHelper ar h C n 0 inst =
     and_then (for_each [0..<baseCount s] (load_base_step C) (inst, ar, h))
       (for_each [0..<memberCount s] (load_field_step C))"
proof -
  let ?bases = "for_each [0..<baseCount s] (load_base_step C) (inst, ar, h)"
  have parents: "(if 0 < baseCount s then loadParents ar h C 0 inst else Inr (inst, ar, h)) = ?bases"
    using load_parents_loop [OF ctor lenb, of 0 ar h] by simp
  have unfold: "loadHelper ar h C n 0 inst =
      and_then ?bases (\<lambda>(inst1, ar1, h1).
         if \<not> 0 < length (member_values inst1) then Inl IllTyped
         else and_then (InputArchive_call ar1 h1 (type_of (member_info C 0)) (member_ref inst1 0))
           (\<lambda>(v, ar2, h2).
             if 0 + 1 < memberCount s
             then loadHelper ar2 h2 C (memberCount s) (0 + 1) (member_ref_assign inst1 0 v)
             else Inr (member_ref_assign inst1 0 v, ar2, h2)))"
    using mc ctor by (simp add: loadHelper.simps [of ar h C n 0] parents)
  show ?thesis
  proof (cases ?bases)
    case (Inl e)
    then show ?thesis by (simp add: unfold)
  next
    case (Inr x)
    obtain inst1 ar1 h1 where x: "x = (inst1, ar1, h1)" by (cases x)
    from load_base_steps_keep [OF Inr [unfolded x]] lenm
    have len1: "length (member_values inst1) = memberCount s" by simp
    have rest: "(if Suc 0 < memberCount s
                 then loadHelper ar2 h2 C (memberCount s) (Suc 0) (member_ref_assign inst1 0 v)
                 else Inr (member_ref_assign inst1 0 v, ar2, h2))
        = for_each [1..<memberCount s] (load_field_step C) (member_ref_assign inst1 0 v, ar2, h2)"
      for ar2 h2 v
      using load_fields_loop [OF ctor, of "member_ref_assign inst1 0 v" 1 ar2 h2] len1 by simp
    have ne: "member_values inst1 \<noteq> []" using mc len1 by auto
    have "loadHelper ar h C n 0 inst =
        and_then (InputArchive_call ar1 h1 (type_of (member_info C 0)) (member_ref inst1 0))
           (\<lambda>(v, ar2, h2). for_each [1..<memberCount s] (load_field_step C)
                               (member_ref_assign inst1 0 v, ar2, h2))"
      using ne by (simp add: unfold Inr x rest cong: if_cong)
    also have "\<dots> = for_each [0..<memberCount s] (load_field_step C) (inst1, ar1, h1)"
      using mc by (simp add: upt_step [of 0] load_field_step_def and_then_assoc split_def)
    finally show ?thesis by (simp add: Inr x)
  qed
qed

section \<open>The static assertions\<close>

lemma ordinals_in_range_simps [simp]:
  "ordinals_in_range [] = True"
  "ordinals_in_range ((C, index) # cs) = (index < length (nonstatic_data_members_of C) \<and> ordinals_in_range cs)"
  "ordinals_in_range (xs @ ys) = (ordinals_in_range xs \<and> ordinals_in_range ys)"
  by (simp_all add: ordinals_in_range_def)

declare helper_calls.simps [simp del] parents_calls.simps [simp del]

lemma save_scalar_not_static [simp]: "save_scalar ar name t s \<noteq> Inl StaticAssert"
  by (simp add: save_scalar_def)

lemma save_shared_ptr_not_static [simp]: "save_shared_ptr h ar name t p \<noteq> Inl StaticAssert"
  by (simp add: save_shared_ptr_def split: option.splits)

lemma memberAtIndex_not_static [simp]: "memberAtIndex s i \<noteq> Inl StaticAssert"
  by (simp add: memberAtIndex_def)

lemma ClassSingleton_ctor_not_static [simp]: "ClassSingleton_ctor C \<noteq> Inl StaticAssert"
  by (simp add: ClassSingleton_ctor_fails)

lemma save_in_range:
  "ordinals_in_range (helper_calls C index) \<Longrightarrow> saveHelper h ar C n index inst \<noteq> Inl StaticAssert"
  "ordinals_in_range (parents_calls C index) \<Longrightarrow> saveParents h ar C index inst \<noteq> Inl StaticAssert"
  "ordinals_in_range (helper_calls C 0) \<Longrightarrow> save h ar C inst \<noteq> Inl StaticAssert"
  "ordinals_in_range (archive_calls T) \<Longrightarrow> OutputArchive_call h ar name T v \<noteq> Inl StaticAssert"
proof (induction h ar C n index inst and h ar C index inst and h ar C inst and h ar name T v
       rule: saveHelper_saveParents_save_OutputArchive_call.induct)
  case (1 h ar C memberCount' index inst)
  show ?case
  proof (cases "ClassSingleton_ctor C")
    case (Inl e)
    then show ?thesis using ClassSingleton_ctor_not_static [of C] by (auto simp: saveHelper.simps)
  next
    case (Inr s)
    note cnt = ClassSingleton_ctor_counts [OF Inr]
    from "1.prems" have idx: "index < memberCount s" "0 < memberCount s"
      using cnt by (auto simp: helper_calls.simps [of C index])
    from "1.prems" idx cnt have
      calls: "index = 0 \<and> 0 < baseCount s \<longrightarrow> ordinals_in_range (parents_calls C 0)"
        "ordinals_in_range (archive_calls (type_of (member_info C index)))"
        "index + 1 < memberCount s \<longrightarrow> ordinals_in_range (helper_calls C (index + 1))"
      by (auto simp: helper_calls.simps [of C index])
    show ?thesis
      using Inr idx calls "1.IH"
      by (auto simp: saveHelper.simps [of h ar C memberCount' index] and_then_eq_Inl
            split: if_splits)
  qed
next
  case (2 h ar C index inst)
  show ?case
  proof (cases "ClassSingleton_ctor C")
    case (Inl e)
    then show ?thesis using ClassSingleton_ctor_not_static [of C] by (auto simp: saveParents.simps)
  next
    case (Inr s)
    note cnt = ClassSingleton_ctor_counts [OF Inr]
    show ?thesis
    proof (cases "index < length (bases s)")
      case False
      then show ?thesis using Inr by (simp add: saveParents.simps [of h ar C index])
    next
      case True
      let ?P = "bases s ! index"
      from "2.prems" True cnt have
        calls: "ordinals_in_range (helper_calls ?P 0)"
          "index + 1 < baseCount s \<longrightarrow> ordinals_in_range (parents_calls C (index + 1))"
        by (auto simp: parents_calls.simps [of C index])
      show ?thesis
      proof (cases "ClassSingleton_ctor ?P")
        case (Inl e)
        then show ?thesis using Inr True ClassSingleton_ctor_not_static [of ?P]
          by (auto simp: saveParents.simps [of h ar C index])
      next
        case p: (Inr p)
        have 1: "saveHelper h ar ?P (memberCount p) 0 (static_cast_base inst index) \<noteq> Inl StaticAssert"
          if "index < length (base_subobjects inst)"
          using "2.IH"(1) [OF Inr _ p] True calls that by simp
        have 2: "saveParents h ar1 C (index + 1) inst \<noteq> Inl StaticAssert"
          if "saveHelper h ar ?P (memberCount p) 0 (static_cast_base inst index) = Inr ar1"
            "index < length (base_subobjects inst)" "index + 1 < baseCount s" for ar1
          using "2.IH"(2) [OF Inr _ p _ that(1)] True calls that by simp
        show ?thesis
          using Inr True p 1 2
          by (auto simp: saveParents.simps [of h ar C index] and_then_eq_Inl)
      qed
    qed
  qed
next
  case (3 h ar C inst)
  then show ?case by (auto simp: save.simps and_then_eq_Inl)
next
  case (4 h ar name T s)
  then show ?case by (cases T) auto
next
  case (5 h ar name T p)
  then show ?case by (cases T) auto
next
  case (6 h ar name T inst)
  then show ?case by (cases T) (auto simp: and_then_eq_Inl)
qed


lemma next_token_not_static [simp]: "next_token ar \<noteq> Inl StaticAssert"
  by (simp add: next_token_def split: list.splits)

lemma load_scalar_not_static [simp]: "load_scalar ar t \<noteq> Inl StaticAssert"
  by (auto simp: load_scalar_def and_then_eq_Inl split: token.splits)

lemma load_shared_ptr_not_static [simp]: "load_shared_ptr ar h t \<noteq> Inl StaticAssert"
  by (auto simp: load_shared_ptr_def and_then_eq_Inl split: token.splits option.splits)

lemma startNode_in_not_static [simp]: "startNode_in ar \<noteq> Inl StaticAssert"
  by (auto simp: startNode_in_def and_then_eq_Inl split: token.splits)

lemma finishNode_in_not_static [simp]: "finishNode_in ar \<noteq> Inl StaticAssert"
  by (auto simp: finishNode_in_def and_then_eq_Inl split: token.splits)

lemma load_in_range:
  "ordinals_in_range (helper_calls C index) \<Longrightarrow> loadHelper ar h C n index inst \<noteq> Inl StaticAssert"
  "ordinals_in_range (parents_calls C index) \<Longrightarrow> loadParents ar h C index inst \<noteq> Inl StaticAssert"
  "ordinals_in_range (helper_calls C 0) \<Longrightarrow> load ar h C inst \<noteq> Inl StaticAssert"
  "ordinals_in_range (archive_calls T) \<Longrightarrow> InputArchive_call ar h T v \<noteq> Inl StaticAssert"
proof (induction ar h C n index inst and ar h C index inst and ar h C inst and ar h T v
       rule: loadHelper_loadParents_load_InputArchive_call.induct)
  case (1 ar h C memberCount' index inst)
  show ?case
  proof (cases "ClassSingleton_ctor C")
    case (Inl e)
    then show ?thesis using ClassSingleton_ctor_not_static [of C] by (auto simp: loadHelper.simps)
  next
    case (Inr s)
    note cnt = ClassSingleton_ctor_counts [OF Inr]
    from "1.prems" have idx: "index < memberCount s" "0 < memberCount s"
      using cnt by (auto simp: helper_calls.simps [of C index])
    from "1.prems" idx cnt have
      calls: "index = 0 \<and> 0 < baseCount s \<longrightarrow> ordinals_in_range (parents_calls C 0)"
        "ordinals_in_range (archive_calls (type_of (member_info C index)))"
        "index + 1 < memberCount s \<longrightarrow> ordinals_in_range (helper_calls C (index + 1))"
      by (auto simp: helper_calls.simps [of C index])
    show ?thesis
      using Inr idx calls "1.IH"
      by (auto simp: loadHelper.simps [of ar h C memberCount' index] and_then_eq_Inl
            split: if_splits)
  qed
next
  case (2 ar h C index inst)
  show ?case
  proof (cases "ClassSingleton_ctor C")
    case (Inl e)
    then show ?thesis using ClassSingleton_ctor_not_static [of C] by (auto simp: loadParents.simps)
  next
    case (Inr s)
    note cnt = ClassSingleton_ctor_counts [OF Inr]
    show ?thesis
    proof (cases "index < length (bases s)")
      case False
      then show ?thesis using Inr by (simp add: loadParents.simps [of ar h C index])
    next
      case True
      let ?P = "bases s ! index"
      from "2.prems" True cnt have
        calls: "ordinals_in_range (helper_calls ?P 0)"
          "index + 1 < baseCount s \<longrightarrow> ordinals_in_range (parents_calls C (index + 1))"
        by (auto simp: parents_calls.simps [of C index])
      show ?thesis
      proof (cases "ClassSingleton_ctor ?P")
        case (Inl e)
        then show ?thesis using Inr True ClassSingleton_ctor_not_static [of ?P]
          by (auto simp: loadParents.simps [of ar h C index])
      next
        case p: (Inr p)
        have 1: "loadHelper ar h ?P (memberCount p) 0 (static_cast_base inst index) \<noteq> Inl StaticAssert"
          if "index < length (base_subobjects inst)"
          using "2.IH"(1) [OF Inr _ p] True calls that by simp
        have 2: "loadParents ar1 h1 C (index + 1) (static_cast_base_assign inst index b) \<noteq> Inl StaticAssert"
          if "loadHelper ar h ?P (memberCount p) 0 (static_cast_base inst index) = Inr (b, ar1, h1)"
            "index < length (base_subobjects inst)" "index + 1 < baseCount s" for b ar1 h1
          using "2.IH"(2) [OF Inr _ p _ that(1) refl refl] True calls that by simp
        show ?thesis
          using Inr True p 1 2
          by (auto simp: loadParents.simps [of ar h C index] and_then_eq_Inl)
      qed
    qed
  qed
next
  case (3 ar h C inst)
  then show ?case by (auto simp: load.simps and_then_eq_Inl)
next
  case (4 ar h t v)
  then show ?case by (auto simp: and_then_eq_Inl)
next
  case (5 ar h t v)
  then show ?case by (auto simp: and_then_eq_Inl)
next
  case (6 ar h C v)
  then show ?case by (cases v) (auto simp: and_then_eq_Inl)
qed

lemma ClassSingleton_ctor_no_members:
  "nonstatic_data_members_of C = [] \<Longrightarrow>
     ClassSingleton_ctor C = Inr \<lparr> memberNamesStrings = [], memberCount = 0,
                                   baseCount = length (bases_of C), bases = bases_of C \<rparr>"
  using ClassSingleton_ctor_ok [of C]
  by (simp add: names_in_bounds_def valid_identifiers_def MAX_CLASS_MEMBERS_def)

lemma no_members_rejected:
  assumes "nonstatic_data_members_of C = []"
  shows "save h ar C inst = Inl StaticAssert" "load iar hL C inst = Inl StaticAssert"
    "saveHelper h ar C n index inst = Inl StaticAssert"
    "loadHelper iar hL C n index inst = Inl StaticAssert"
  using ClassSingleton_ctor_no_members [OF assms]
  by (simp_all add: save.simps load.simps saveHelper.simps loadHelper.simps)

section \<open>Saving hands back what it was given\<close>

lemma member_ref_assign_same:
  "index < length (member_values inst) \<Longrightarrow> member_ref_assign inst index (member_ref_const inst index) = inst"
  by (simp add: member_ref_assign_def member_ref_const_def)

lemma static_cast_base_assign_same:
  "index < length (base_subobjects inst) \<Longrightarrow>
     static_cast_base_assign inst index (static_cast_base inst index) = inst"
  by (simp add: static_cast_base_assign_def static_cast_base_def)

lemma handing_back_simps [simp]:
  "handing_back x h (Inl e) = Inl e"
  "handing_back x h (Inr ar) = Inr (x, ar, h)"
  by (simp_all add: handing_back_def)

lemma save_ref_hands_back:
  "saveHelper_ref h ar C n index inst = handing_back inst h (saveHelper h ar C n index inst)"
  "saveParents_ref h ar C index inst = handing_back inst h (saveParents h ar C index inst)"
  "save_ref h ar C inst = handing_back inst h (save h ar C inst)"
  "OutputArchive_call_ref h ar name T v = handing_back v h (OutputArchive_call h ar name T v)"
proof (induction h ar C n index inst and h ar C index inst and h ar C inst and h ar name T v
       rule: saveHelper_ref_saveParents_ref_save_ref_OutputArchive_call_ref.induct)
  case (1 h ar C memberCount' index inst)
  note unf = saveHelper_ref.simps [of h ar C memberCount' index inst]
    saveHelper.simps [of h ar C memberCount' index inst]
  show ?case
  proof (cases "ClassSingleton_ctor C")
    case (Inl e)
    then show ?thesis by (simp add: unf)
  next
    case (Inr s)
    show ?thesis
    proof (cases "0 < memberCount s \<and> index < memberCount s")
      case False
      then show ?thesis using Inr by (auto simp: unf)
    next
      case True
      then have g: "\<not> \<not> 0 < memberCount s" "\<not> \<not> index < memberCount s" by simp_all
      let ?p = "if index = 0 \<and> baseCount s > 0 then saveParents h ar C 0 inst else Inr ar"
      let ?p' = "if index = 0 \<and> baseCount s > 0 then saveParents_ref h ar C 0 inst else Inr (inst, ar, h)"
      have p: "?p' = handing_back inst h ?p"
        using "1.IH"(1) [OF Inr g] by simp
      show ?thesis
      proof (cases ?p)
        case (Inl e)
        with p have "?p' = Inl e" by simp
        with Inl Inr True show ?thesis by (simp add: unf)
      next
        case r1: (Inr ar1)
        from p r1 have r1': "?p' = Inr (inst, ar1, h)" by simp
        show ?thesis
        proof (cases "index < length (member_values inst)")
          case False
          with Inr True r1 r1' show ?thesis by (simp add: unf)
        next
          case t: True
          then have t': "\<not> \<not> index < length (member_values inst)" by simp
          show ?thesis
          proof (cases "memberAtIndex s index")
            case (Inl e)
            with Inr True r1 r1' t show ?thesis by (simp add: unf)
          next
            case nm: (Inr name)
            let ?c = "OutputArchive_call h ar1 (Some name) (type_of (member_info C index))
                         (member_ref_const inst index)"
            let ?c' = "OutputArchive_call_ref h ar1 (Some name) (type_of (member_info C index))
                         (member_ref_const inst index)"
            have c: "?c' = handing_back (member_ref_const inst index) h ?c"
              using "1.IH"(2) [OF Inr g r1' refl refl t' nm] .
            show ?thesis
            proof (cases ?c)
              case (Inl e)
              with c have "?c' = Inl e" by simp
              with Inl Inr True r1 r1' t nm show ?thesis by (simp add: unf)
            next
              case r2: (Inr ar2)
              from c r2 have r2': "?c' = Inr (member_ref_const inst index, ar2, h)" by simp
              note same = member_ref_assign_same [OF t]
              show ?thesis
              proof (cases "index + 1 < memberCount s")
                case False
                with Inr True r1 r1' t nm r2 r2' same show ?thesis by (simp add: unf)
              next
                case n: True
                from "1.IH"(3) [OF Inr g r1' refl refl t' nm r2' refl refl n]
                have "saveHelper_ref h ar2 C (memberCount s) (index + 1) inst
                    = handing_back inst h (saveHelper h ar2 C (memberCount s) (index + 1) inst)"
                  by (simp add: same)
                with Inr True r1 r1' t nm r2 r2' n same show ?thesis by (simp add: unf)
              qed
            qed
          qed
        qed
      qed
    qed
  qed
next
  case (2 h ar C index inst)
  note unf = saveParents_ref.simps [of h ar C index inst] saveParents.simps [of h ar C index inst]
  show ?case
  proof (cases "ClassSingleton_ctor C")
    case (Inl e)
    then show ?thesis by (simp add: unf)
  next
    case (Inr s)
    show ?thesis
    proof (cases "index < length (bases s)")
      case False
      then show ?thesis using Inr by (simp add: unf)
    next
      case k: True
      then have k': "\<not> \<not> index < length (bases s)" by simp
      show ?thesis
      proof (cases "ClassSingleton_ctor (bases s ! index)")
        case (Inl e)
        then show ?thesis using Inr k by (simp add: unf)
      next
        case pI: (Inr p)
        show ?thesis
        proof (cases "index < length (base_subobjects inst)")
          case False
          then show ?thesis using Inr k pI by (simp add: unf)
        next
          case t: True
          then have t': "\<not> \<not> index < length (base_subobjects inst)" by simp
          let ?c = "saveHelper h ar (bases s ! index) (memberCount p) 0 (static_cast_base inst index)"
          let ?c' = "saveHelper_ref h ar (bases s ! index) (memberCount p) 0 (static_cast_base inst index)"
          have c: "?c' = handing_back (static_cast_base inst index) h ?c"
            using "2.IH"(1) [OF Inr k' pI t'] .
          note same = static_cast_base_assign_same [OF t]
          show ?thesis
          proof (cases ?c)
            case (Inl e)
            with c have "?c' = Inl e" by simp
            with Inl Inr k pI t show ?thesis by (simp add: unf)
          next
            case r: (Inr ar1)
            from c r have r': "?c' = Inr (static_cast_base inst index, ar1, h)" by simp
            show ?thesis
            proof (cases "index + 1 < baseCount s")
              case False
              with Inr k pI t r r' same show ?thesis by (simp add: unf)
            next
              case n: True
              from "2.IH"(2) [OF Inr k' pI t' r' refl refl n]
              have "saveParents_ref h ar1 C (index + 1) inst
                  = handing_back inst h (saveParents h ar1 C (index + 1) inst)"
                by (simp add: same)
              with Inr k pI t r r' n same show ?thesis by (simp add: unf)
            qed
          qed
        qed
      qed
    qed
  qed
next
  case (3 h ar C inst)
  show ?case
  proof (cases "ClassSingleton_ctor C")
    case (Inl e)
    then show ?thesis by (simp add: save.simps save_ref.simps)
  next
    case (Inr s)
    from "3.IH" [OF Inr] Inr show ?thesis by (simp add: save.simps save_ref.simps)
  qed
next
  case (4 h ar name T s)
  show ?case by (cases T; cases "save_scalar ar name (case T of ScalarT t \<Rightarrow> t | _ \<Rightarrow> IntT) s") simp_all
next
  case (5 h ar name T p)
  show ?case
    by (cases T; cases "save_shared_ptr h ar name (case T of SharedT t \<Rightarrow> t | _ \<Rightarrow> IntT) p") simp_all
next
  case (6 h ar name T inst)
  show ?case
  proof (cases T)
    case (ClassT C)
    from "6.IH" [OF ClassT]
    have l: "save_ref h (startNode ar name) C inst
        = handing_back inst h (save h (startNode ar name) C inst)" .
    show ?thesis
      using l ClassT by (cases "save h (startNode ar name) C inst") simp_all
  qed simp_all
qed

lemma handing_back_Inr: "handing_back x h r = Inr (x', ar', h') \<Longrightarrow> x' = x \<and> h' = h"
  by (cases r) simp_all

text \<open>So the convenience functions give the stream that the archive call writes.\<close>

lemma to_json_stream:
  "to_json name T f =
     and_then (OutputArchive_call (frame_heap f) (JSONOutputArchive (frame_stream f)) name T (frame_obj f))
       (\<lambda>ar. Inr (f\<lparr>frame_stream := out_stream ar\<rparr>))"
  by (cases "OutputArchive_call (frame_heap f) (JSONOutputArchive (frame_stream f)) name T (frame_obj f)")
     (simp_all add: to_json_def to_output_archive_def save_ref_hands_back)

lemma to_xml_stream:
  "to_xml name T f =
     and_then (OutputArchive_call (frame_heap f) (XMLOutputArchive (frame_stream f)) name T (frame_obj f))
       (\<lambda>ar. Inr (f\<lparr>frame_stream := out_stream ar\<rparr>))"
  by (cases "OutputArchive_call (frame_heap f) (XMLOutputArchive (frame_stream f)) name T (frame_obj f)")
     (simp_all add: to_xml_def save_ref_hands_back)

lemma class_simps:
  "nonstatic_data_members_of Pleh = [(''foo'', ScalarT IntT), (''bar'', ScalarT StringT)]"
  "bases_of Pleh = []"
  "nonstatic_data_members_of Parent = [(''foo'', ScalarT IntT)]"
  "bases_of Parent = []"
  "nonstatic_data_members_of Child = [(''bar'', ScalarT IntT)]"
  "bases_of Child = [Parent]"
  by (simp_all add: Pleh_def Parent_def Child_def)

lemmas run_simps = class_simps saveHelper.simps saveParents.simps save.simps loadHelper.simps loadParents.simps
  load.simps ClassSingleton_ctor_Pleh ClassSingleton_ctor_Parent ClassSingleton_ctor_Child
  memberAtIndex_def member_info_def member_ref_const_def member_ref_def member_ref_assign_def
  static_cast_base_def static_cast_base_assign_def type_of_def save_scalar_def load_scalar_def
  save_shared_ptr_def load_shared_ptr_def next_token_def startNode_def finishNode_def
  startNode_in_def finishNode_in_def emit_def nvp_name_def
  JSONOutputArchive_def JSONInputArchive_def XMLOutputArchive_def XMLInputArchive_def
  BinaryOutputArchive_def BinaryInputArchive_def
  to_json_stream from_json_def to_xml_stream from_xml_def from_input_archive_def
  to_json_string_def from_json_string_def to_xml_string_def from_xml_string_def

text \<open>
  C5. A class with no data member of its own gets its singleton, with member
  count 0, but saving or loading an instance of it is refused by the static
  assertion on the member count, whatever its bases are: nothing is transferred,
  neither for a class whose base has members nor for a class with no base.
\<close>

theorem without_members_rejected:
  "nonstatic_data_members_of C = [] \<Longrightarrow>
     (\<exists>s. ClassSingleton_ctor C = Inr s \<and> memberCount s = 0 \<and> baseCount s = length (bases_of C)) \<and>
     save h ar C inst = Inl StaticAssert \<and> load iar hL C inst' = Inl StaticAssert"
  using no_members_rejected [of C] ClassSingleton_ctor_no_members [of C] by simp

theorem without_members_rejected_witness:
  "nonstatic_data_members_of Derived = [] \<and>
   save [] (JSONOutputArchive []) Derived derived = Inl StaticAssert \<and>
   load (JSONInputArchive []) [] Derived derived = Inl StaticAssert"
  using without_members_rejected [of Derived "[]" "JSONOutputArchive []" derived "JSONInputArchive []" "[]" derived]
  by (simp add: Derived_def)

text \<open>
  \<open>Derived\<close> has no member and a base with one member, \<open>Empty\<close> has no member
  and no base. Saving either is a build failure: the first is not serialized
  through its base, the second is not a no-op.
\<close>

theorem derived_and_empty_rejected:
  "nonstatic_data_members_of Derived = [] \<and> bases_of Derived = [Parent] \<and>
   nonstatic_data_members_of Parent = [(''foo'', ScalarT IntT)] \<and>
   save [] (JSONOutputArchive []) Derived derived = Inl StaticAssert \<and>
   load (JSONInputArchive []) [] Derived derived = Inl StaticAssert \<and>
   nonstatic_data_members_of Empty = [] \<and> bases_of Empty = [] \<and>
   save [] (JSONOutputArchive []) Empty (Obj [] []) = Inl StaticAssert \<and>
   load (JSONInputArchive []) [] Empty (Obj [] []) = Inl StaticAssert"
  by (simp add: no_members_rejected Derived_def Empty_def Parent_def)

text \<open>
  C6. Every invocation of \<^verbatim>\<open>saveHelper\<close> and of \<^verbatim>\<open>loadHelper\<close> checks that
  the member count of the singleton it fetched is above 0 and that its ordinal is
  below that count; when either fails the result is the failed static assertion
  and nothing else. When every ordinal the traversal generates from the root
  class on is below the member count of its class, no invocation, of the whole
  save or load, fails a static assertion.
\<close>

theorem static_assertions:
  "(ClassSingleton_ctor C = Inr s \<longrightarrow> \<not> (0 < memberCount s \<and> index < memberCount s) \<longrightarrow>
      saveHelper h ar C n index inst = Inl StaticAssert \<and>
      loadHelper iar hL C n index inst' = Inl StaticAssert) \<and>
   (ordinals_in_range (helper_calls C 0) \<longrightarrow>
      saveHelper h ar C n 0 inst \<noteq> Inl StaticAssert \<and> save h ar C inst \<noteq> Inl StaticAssert \<and>
      loadHelper iar hL C n 0 inst' \<noteq> Inl StaticAssert \<and> load iar hL C inst' \<noteq> Inl StaticAssert)"
  using save_in_range(1,3) [of C] load_in_range(1,3) [of C]
  by (auto simp: saveHelper.simps [of h ar C n index] loadHelper.simps [of iar hL C n index])

theorem static_assertions_witness:
  "ClassSingleton_ctor Pleh = Inr Pleh_singleton \<and> \<not> (2::nat) < memberCount Pleh_singleton \<and>
   saveHelper [] (JSONOutputArchive []) Pleh 2 2 pleh = Inl StaticAssert \<and>
   loadHelper (JSONInputArchive []) [] Pleh 2 2 pleh = Inl StaticAssert \<and>
   ordinals_in_range (helper_calls Child 0) \<and>
   save [] (JSONOutputArchive []) Child child \<noteq> Inl StaticAssert \<and>
   load (JSONInputArchive []) [] Child child \<noteq> Inl StaticAssert"
proof -
  have 1: "ClassSingleton_ctor Pleh = Inr Pleh_singleton" by (rule ClassSingleton_ctor_Pleh)
  have 2: "\<not> (0 < memberCount Pleh_singleton \<and> (2::nat) < memberCount Pleh_singleton)"
    by (simp add: Pleh_singleton_def)
  have 3: "ordinals_in_range (helper_calls Child 0)"
    by (simp add: helper_calls.simps parents_calls.simps class_simps member_info_def type_of_def)
  from static_assertions [of Pleh Pleh_singleton 2 "[]" "JSONOutputArchive []" 2 pleh
      "JSONInputArchive []" "[]" pleh] 1 2
  have a: "saveHelper [] (JSONOutputArchive []) Pleh 2 2 pleh = Inl StaticAssert"
    "loadHelper (JSONInputArchive []) [] Pleh 2 2 pleh = Inl StaticAssert" by blast+
  from static_assertions [of Child _ 0 "[]" "JSONOutputArchive []" 0 child
      "JSONInputArchive []" "[]" child] 3
  have b: "save [] (JSONOutputArchive []) Child child \<noteq> Inl StaticAssert"
    "load (JSONInputArchive []) [] Child child \<noteq> Inl StaticAssert" by blast+
  show ?thesis using 1 2 3 a b by (simp add: Pleh_singleton_def)
qed

section \<open>Round trip\<close>

lemma save_preserves:
  assumes scalar: "\<And>ar name t s ar'. Q ar \<Longrightarrow> save_scalar ar name t s = Inr ar' \<Longrightarrow> Q ar'"
    and shared: "\<And>h ar name t p ar'. Q ar \<Longrightarrow> save_shared_ptr h ar name t p = Inr ar' \<Longrightarrow> Q ar'"
    and start: "\<And>ar name. Q ar \<Longrightarrow> Q (startNode ar name)"
    and finish: "\<And>ar. Q ar \<Longrightarrow> Q (finishNode ar)"
  shows "saveHelper h ar C n index inst = Inr ar' \<Longrightarrow> Q ar \<Longrightarrow> Q ar'"
    and "saveParents h ar C index inst = Inr ar' \<Longrightarrow> Q ar \<Longrightarrow> Q ar'"
    and "save h ar C inst = Inr ar' \<Longrightarrow> Q ar \<Longrightarrow> Q ar'"
    and "OutputArchive_call h ar name T v = Inr ar' \<Longrightarrow> Q ar \<Longrightarrow> Q ar'"
proof (induction h ar C n index inst and h ar C index inst and h ar C inst and h ar name T v
       arbitrary: ar' and ar' and ar' and ar'
       rule: saveHelper_saveParents_save_OutputArchive_call.induct)
  case (1 h ar C memberCount' index inst)
  from "1.prems"(1) obtain s ar1 name ar2 where
    s: "ClassSingleton_ctor C = Inr s" and g: "0 < memberCount s" "index < memberCount s"
    and p: "(if index = 0 \<and> 0 < baseCount s then saveParents h ar C 0 inst else Inr ar) = Inr ar1"
    and t: "index < length (member_values inst)"
    and nm: "memberAtIndex s index = Inr name"
    and c: "OutputArchive_call h ar1 (Some name) (type_of (member_info C index))
              (member_ref_const inst index) = Inr ar2"
    and r: "(if index + 1 < memberCount s
             then saveHelper h ar2 C (memberCount s) (index + 1) inst else Inr ar2) = Inr ar'"
    by (auto simp: saveHelper.simps [of h ar C memberCount' index] and_then_eq_Inr split: if_splits)
  have 1: "Q ar1"
    using p "1.IH"(1) [OF s] g "1.prems"(2) by (auto split: if_splits)
  have 2: "Q ar2"
    using "1.IH"(2) [OF s _ _ p _ nm c 1] g t by simp
  show ?case
    using r "1.IH"(3) [OF s _ _ p _ nm c _ _ 2] g t 2 by (auto split: if_splits)
next
  case (2 h ar C index inst)
  from "2.prems"(1) obtain s p ar1 where
    s: "ClassSingleton_ctor C = Inr s" and k: "index < length (bases s)"
    and p: "ClassSingleton_ctor (bases s ! index) = Inr p"
    and t: "index < length (base_subobjects inst)"
    and c: "saveHelper h ar (bases s ! index) (memberCount p) 0 (static_cast_base inst index) = Inr ar1"
    and r: "(if index + 1 < baseCount s then saveParents h ar1 C (index + 1) inst else Inr ar1) = Inr ar'"
    by (auto simp: saveParents.simps [of h ar C index] and_then_eq_Inr split: if_splits)
  have 1: "Q ar1"
    using "2.IH"(1) [OF s _ p _ c "2.prems"(2)] k t by simp
  show ?case
    using r "2.IH"(2) [OF s _ p _ c _ _ 1] k t 1 by (auto split: if_splits)
next
  case (3 h ar C inst)
  then show ?case by (auto simp: save.simps and_then_eq_Inr)
next
  case (4 h ar name T s)
  then show ?case by (cases T) (auto dest: scalar)
next
  case (5 h ar name T p)
  then show ?case by (cases T) (auto dest: shared)
next
  case (6 h ar name T inst)
  show ?case
  proof (cases T)
    case (ClassT C)
    with "6.prems" obtain ar1 where 1: "save h (startNode ar name) C inst = Inr ar1"
      and 2: "ar' = finishNode ar1"
      by (auto simp: and_then_eq_Inr)
    from "6.IH" [OF ClassT 1 start [OF "6.prems"(2)]] show ?thesis unfolding 2 by (rule finish)
  qed (use "6.prems" in auto)
qed

lemma extends_refl [simp]: "extends ar ar"
  by (simp add: extends_def)

lemma extends_trans: "extends a b \<Longrightarrow> extends b c \<Longrightarrow> extends a c"
  by (auto simp: extends_def)

lemma emit_extends [simp]: "extends ar (emit t ar)"
  by (simp add: extends_def emit_def)

lemma save_scalar_extends: "save_scalar ar name t s = Inr ar' \<Longrightarrow> extends ar ar'"
  by (auto simp: save_scalar_def split: if_splits)

lemma save_shared_ptr_extends: "save_shared_ptr h ar name t p = Inr ar' \<Longrightarrow> extends ar ar'"
  by (auto simp: save_shared_ptr_def extends_def emit_def split: option.splits if_splits)

lemma startNode_extends [simp]: "extends ar (startNode ar name)"
  by (simp add: startNode_def)

lemma finishNode_extends [simp]: "extends ar (finishNode ar)"
  by (simp add: finishNode_def)

lemma save_extends:
  "saveHelper h ar C n index inst = Inr ar' \<Longrightarrow> extends ar ar'"
  "saveParents h ar C index inst = Inr ar' \<Longrightarrow> extends ar ar'"
  "save h ar C inst = Inr ar' \<Longrightarrow> extends ar ar'"
  "OutputArchive_call h ar name T v = Inr ar' \<Longrightarrow> extends ar ar'"
  by (erule save_preserves [where Q = "extends ar", rotated 4];
      (blast intro: extends_trans startNode_extends finishNode_extends extends_refl
         dest: save_scalar_extends save_shared_ptr_extends))+

lemma instance_of_skeleton:
  "instance_of h C inst \<Longrightarrow> skeleton C inst"
  "value_of h T v \<Longrightarrow> skeleton_val T v"
proof (induction h C inst and h T v rule: instance_of_value_of.induct)
  case (1 h C inst)
  then show ?case
    by (subst skeleton.simps) (auto simp: instance_of.simps [of h C inst])
next
  case (4 h C v)
  then show ?case by (cases v) auto
qed auto

lemma target_of_same:
  "out_shared ar' = out_shared ar \<Longrightarrow> in_shared iar' = in_shared iar \<Longrightarrow>
     target_of ar' iar' = target_of ar iar"
  by (rule ext) (simp add: target_of_def cong: option.case_cong)

lemma next_token_synced:
  assumes "synced hS ar iar hL whole" and "prefix (out_stream ar @ [t]) whole"
  shows "next_token iar = Inr (t, iar\<lparr>in_stream := tl (in_stream iar)\<rparr>)"
    and "out_stream ar @ [t] @ tl (in_stream iar) = whole"
proof -
  from assms(2) obtain zs where "whole = (out_stream ar @ [t]) @ zs" by (auto simp: prefix_def)
  moreover from assms(1) have "out_stream ar @ in_stream iar = whole" by (simp add: synced_def)
  ultimately have "in_stream iar = t # zs" by simp
  then show "next_token iar = Inr (t, iar\<lparr>in_stream := tl (in_stream iar)\<rparr>)"
    "out_stream ar @ [t] @ tl (in_stream iar) = whole"
    using \<open>out_stream ar @ in_stream iar = whole\<close> by (simp_all add: next_token_def)
qed

lemma scalar_step:
  assumes sv: "save_scalar ar name t s = Inr ar'"
    and sy: "synced hS ar iar hL whole" and pre: "prefix (out_stream ar') whole"
  shows "\<exists>iar'. load_scalar iar t = Inr (s, iar') \<and> synced hS ar' iar' hL whole \<and>
           target_of ar' iar' = target_of ar iar"
proof -
  let ?tok = "Value (nvp_name (out_backend ar) name) s"
  from sv have ty: "scalar_has_ty s t" and ar': "ar' = emit ?tok ar"
    by (auto simp: save_scalar_def split: if_splits)
  from pre have "prefix (out_stream ar @ [?tok]) whole" by (simp add: ar' emit_def)
  note nt = next_token_synced [OF sy this]
  let ?iar' = "iar\<lparr>in_stream := tl (in_stream iar)\<rparr>"
  have "load_scalar iar t = Inr (s, ?iar')" using nt(1) ty by (simp add: load_scalar_def)
  moreover have "synced hS ar' ?iar' hL whole"
    using sy nt(2) by (simp add: synced_def ar' emit_def)
  moreover have "target_of ar' ?iar' = target_of ar iar"
    by (rule target_of_same) (simp_all add: ar' emit_def)
  ultimately show ?thesis by blast
qed

lemma startNode_step:
  assumes sy: "synced hS ar iar hL whole" and pre: "prefix (out_stream (startNode ar name)) whole"
  shows "\<exists>iar'. startNode_in iar = Inr iar' \<and> synced hS (startNode ar name) iar' hL whole \<and>
           target_of (startNode ar name) iar' = target_of ar iar"
proof (cases "out_backend ar = Binary")
  case True
  then show ?thesis using sy by (auto simp: startNode_def startNode_in_def synced_def)
next
  case False
  let ?tok = "StartNode (nvp_name (out_backend ar) name)"
  from pre False have "prefix (out_stream ar @ [?tok]) whole" by (simp add: startNode_def emit_def)
  note nt = next_token_synced [OF sy this]
  let ?iar' = "iar\<lparr>in_stream := tl (in_stream iar)\<rparr>"
  have b: "in_backend iar \<noteq> Binary" using sy False by (simp add: synced_def)
  have "startNode_in iar = Inr ?iar'" using nt(1) b by (simp add: startNode_in_def)
  moreover have "synced hS (startNode ar name) ?iar' hL whole"
    using sy nt(2) False by (simp add: synced_def startNode_def emit_def)
  moreover have "target_of (startNode ar name) ?iar' = target_of ar iar"
    by (rule target_of_same) (simp_all add: startNode_def emit_def)
  ultimately show ?thesis by blast
qed

lemma finishNode_step:
  assumes sy: "synced hS ar iar hL whole" and pre: "prefix (out_stream (finishNode ar)) whole"
  shows "\<exists>iar'. finishNode_in iar = Inr iar' \<and> synced hS (finishNode ar) iar' hL whole \<and>
           target_of (finishNode ar) iar' = target_of ar iar"
proof (cases "out_backend ar = Binary")
  case True
  then show ?thesis using sy by (auto simp: finishNode_def finishNode_in_def synced_def)
next
  case False
  from pre False have "prefix (out_stream ar @ [FinishNode]) whole" by (simp add: finishNode_def emit_def)
  note nt = next_token_synced [OF sy this]
  let ?iar' = "iar\<lparr>in_stream := tl (in_stream iar)\<rparr>"
  have b: "in_backend iar \<noteq> Binary" using sy False by (simp add: synced_def)
  have "finishNode_in iar = Inr ?iar'" using nt(1) b by (simp add: finishNode_in_def)
  moreover have "synced hS (finishNode ar) ?iar' hL whole"
    using sy nt(2) False by (simp add: synced_def finishNode_def emit_def)
  moreover have "target_of (finishNode ar) ?iar' = target_of ar iar"
    by (rule target_of_same) (simp_all add: finishNode_def emit_def)
  ultimately show ?thesis by blast
qed

lemma shared_ptr_step:
  assumes sv: "save_shared_ptr hS ar name t p = Inr ar'"
    and sy: "synced hS ar iar hL whole" and pre: "prefix (out_stream ar') whole"
  shows "\<exists>p' iar' hL'. load_shared_ptr iar hL t = Inr (p', iar', hL') \<and>
           synced hS ar' iar' hL' whole \<and>
           target_of ar iar \<subseteq>\<^sub>m target_of ar' iar' \<and>
           rel_val (target_of ar' iar') (SharedV p) (SharedV p')"
proof (cases p)
  case None
  let ?tok = "NullPtr (nvp_name (out_backend ar) name)"
  from sv None have ar': "ar' = emit ?tok ar" by (simp add: save_shared_ptr_def)
  from pre have "prefix (out_stream ar @ [?tok]) whole" by (simp add: ar' emit_def)
  note nt = next_token_synced [OF sy this]
  let ?iar' = "iar\<lparr>in_stream := tl (in_stream iar)\<rparr>"
  have "load_shared_ptr iar hL t = Inr (None, ?iar', hL)" using nt(1) by (simp add: load_shared_ptr_def)
  moreover have "synced hS ar' ?iar' hL whole"
    using sy nt(2) by (simp add: synced_def ar' emit_def)
  moreover have "target_of ar' ?iar' = target_of ar iar"
    by (rule target_of_same) (simp_all add: ar' emit_def)
  ultimately show ?thesis using None by auto
next
  case (Some a)
  show ?thesis
  proof (cases "map_of (out_shared ar) a")
    case reg: (Some i)
    let ?tok = "BackRef (nvp_name (out_backend ar) name) i"
    from sv Some reg have ar': "ar' = emit ?tok ar" by (simp add: save_shared_ptr_def)
    from pre have "prefix (out_stream ar @ [?tok]) whole" by (simp add: ar' emit_def)
    note nt = next_token_synced [OF sy this]
    let ?iar' = "iar\<lparr>in_stream := tl (in_stream iar)\<rparr>"
    from sy reg obtain b where b: "map_of (in_shared iar) i = Some b" by (auto simp: synced_def)
    have "load_shared_ptr iar hL t = Inr (Some b, ?iar', hL)"
      using nt(1) b by (simp add: load_shared_ptr_def)
    moreover have "synced hS ar' ?iar' hL whole"
      using sy nt(2) by (simp add: synced_def ar' emit_def)
    moreover have eq: "target_of ar' ?iar' = target_of ar iar"
      by (rule target_of_same) (simp_all add: ar' emit_def)
    moreover have "rel_val (target_of ar' ?iar') (SharedV p) (SharedV (Some b))"
      using Some reg b by (simp add: eq) (simp add: target_of_def)
    ultimately show ?thesis by auto
  next
    case reg: None
    let ?i = "Suc (length (out_shared ar))"
    let ?tok = "NewPtr (nvp_name (out_backend ar) name) ?i (hS ! a)"
    from sv Some reg have a: "a < length hS" and ty: "scalar_has_ty (hS ! a) t"
      and ar': "ar' = (emit ?tok ar)\<lparr>out_shared := (a, ?i) # out_shared ar\<rparr>"
      by (auto simp: save_shared_ptr_def split: if_splits)
    from pre have "prefix (out_stream ar @ [?tok]) whole" by (simp add: ar' emit_def)
    note nt = next_token_synced [OF sy this]
    let ?iar' = "iar\<lparr>in_stream := tl (in_stream iar), in_shared := (?i, length hL) # in_shared iar\<rparr>"
    let ?hL' = "hL @ [hS ! a]"
    have ld: "load_shared_ptr iar hL t = Inr (Some (length hL), ?iar', ?hL')"
      using nt(1) ty by (simp add: load_shared_ptr_def)
    have old: "i \<le> length (out_shared ar) \<and>
         (\<exists>b. map_of (in_shared iar) i = Some b \<and> a' < length hS \<and> b < length hL \<and> hL ! b = hS ! a')"
      if "map_of (out_shared ar) a' = Some i" for a' i
      using sy that by (simp add: synced_def)
    have sy': "synced hS ar' ?iar' ?hL' whole"
      unfolding synced_def
    proof (intro conjI allI impI)
      show "in_backend ?iar' = out_backend ar'" using sy by (simp add: synced_def ar' emit_def)
      show "out_stream ar' @ in_stream ?iar' = whole" using nt(2) by (simp add: ar' emit_def)
    next
      fix a' i assume m: "map_of (out_shared ar') a' = Some i"
      show "i \<le> length (out_shared ar')"
        using m old [of a' i] by (auto simp: ar' emit_def split: if_splits)
      show "\<exists>b. map_of (in_shared ?iar') i = Some b \<and> a' < length hS \<and> b < length ?hL' \<and> ?hL' ! b = hS ! a'"
      proof (cases "a' = a")
        case True
        then show ?thesis using m a by (simp add: ar' emit_def)
      next
        case False
        with m have m': "map_of (out_shared ar) a' = Some i" by (simp add: ar' emit_def)
        from old [OF m'] show ?thesis by (auto simp: nth_append)
      qed
    qed
    have le: "target_of ar iar \<subseteq>\<^sub>m target_of ar' ?iar'"
      unfolding map_le_def
    proof
      fix a' assume "a' \<in> dom (target_of ar iar)"
      then obtain i where m: "map_of (out_shared ar) a' = Some i"
        by (auto simp: target_of_def split: option.splits)
      then have "a' \<noteq> a" using reg by auto
      moreover have "i \<noteq> ?i" using old [OF m] by auto
      ultimately show "target_of ar iar a' = target_of ar' ?iar' a'"
        using m by (simp add: target_of_def ar' emit_def)
    qed
    have "rel_val (target_of ar' ?iar') (SharedV p) (SharedV (Some (length hL)))"
      using Some by (simp add: target_of_def ar' emit_def)
    with ld sy' le show ?thesis by blast
  qed
qed

lemma rel_mono:
  "rel_val r v v' \<Longrightarrow> r \<subseteq>\<^sub>m r' \<Longrightarrow> rel_val r' v v'"
  "rel_obj r inst inst' \<Longrightarrow> r \<subseteq>\<^sub>m r' \<Longrightarrow> rel_obj r' inst inst'"
proof (induction r v v' and r inst inst' rule: rel_val_rel_obj.induct)
  case (3 r a v')
  then show ?case by (auto simp: map_le_def dom_def split: option.splits)
next
  case (4 r inst v')
  then show ?case by (cases v') auto
next
  case (5 r bs vs inst')
  from "5.prems" have 1: "list_all2 (rel_obj r) bs (base_subobjects inst')"
    and 2: "list_all2 (rel_val r) vs (member_values inst')" by auto
  have "list_all2 (rel_obj r') bs (base_subobjects inst')"
    using 1 "5.IH"(1) "5.prems"(2)
    by (auto simp: list_all2_conv_all_nth)
  moreover have "list_all2 (rel_val r') vs (member_values inst')"
    using 2 "5.IH"(2) "5.prems"(2)
    by (auto simp: list_all2_conv_all_nth)
  ultimately show ?case by simp
qed auto

lemma rel_obj_sel:
  "rel_obj r inst inst' =
     (list_all2 (rel_obj r) (base_subobjects inst) (base_subobjects inst') \<and>
      list_all2 (rel_val r) (member_values inst) (member_values inst'))"
  by (cases inst) simp

lemma skeleton_member_assign:
  "skeleton C t \<Longrightarrow> i < length (nonstatic_data_members_of C) \<Longrightarrow>
   skeleton_val (type_of (member_info C i)) v \<Longrightarrow> skeleton C (member_ref_assign t i v)"
  by (subst skeleton.simps) (auto simp: skeleton.simps [of C t] nth_list_update)

lemma skeleton_base_assign:
  "skeleton C t \<Longrightarrow> k < length (bases_of C) \<Longrightarrow>
   skeleton (bases_of C ! k) b \<Longrightarrow> skeleton C (static_cast_base_assign t k b)"
  by (subst skeleton.simps) (auto simp: skeleton.simps [of C t] nth_list_update)

lemma skeletonD:
  assumes "skeleton C t"
  shows "length (base_subobjects t) = length (bases_of C)"
    and "length (member_values t) = length (nonstatic_data_members_of C)"
    and "\<And>k. k < length (bases_of C) \<Longrightarrow> skeleton (bases_of C ! k) (base_subobjects t ! k)"
    and "\<And>i. i < length (nonstatic_data_members_of C) \<Longrightarrow>
           skeleton_val (type_of (member_info C i)) (member_values t ! i)"
  using assms by (simp_all add: skeleton.simps [of C t])

lemma load_follows_save:
  "saveHelper h ar C n index inst = Inr ar' \<Longrightarrow>
   synced h ar iar hL whole \<Longrightarrow> prefix (out_stream ar') whole \<Longrightarrow>
   skeleton C inst \<Longrightarrow> skeleton C target \<Longrightarrow>
   \<exists>inst' iar' hL'.
     loadHelper iar hL C m index target = Inr (inst', iar', hL') \<and>
     synced h ar' iar' hL' whole \<and> target_of ar iar \<subseteq>\<^sub>m target_of ar' iar' \<and>
     skeleton C inst' \<and>
     (\<forall>j. index \<le> j \<and> j < length (nonstatic_data_members_of C) \<longrightarrow>
        rel_val (target_of ar' iar') (member_values inst ! j) (member_values inst' ! j)) \<and>
     (\<forall>j < index. member_values inst' ! j = member_values target ! j) \<and>
     (if index = 0
      then \<forall>k < length (bases_of C).
             rel_obj (target_of ar' iar') (base_subobjects inst ! k) (base_subobjects inst' ! k)
      else base_subobjects inst' = base_subobjects target)"
  "saveParents h ar C index inst = Inr ar' \<Longrightarrow>
   synced h ar iar hL whole \<Longrightarrow> prefix (out_stream ar') whole \<Longrightarrow>
   skeleton C inst \<Longrightarrow> skeleton C target \<Longrightarrow>
   \<exists>inst' iar' hL'.
     loadParents iar hL C index target = Inr (inst', iar', hL') \<and>
     synced h ar' iar' hL' whole \<and> target_of ar iar \<subseteq>\<^sub>m target_of ar' iar' \<and>
     skeleton C inst' \<and> member_values inst' = member_values target \<and>
     (\<forall>k. index \<le> k \<and> k < length (bases_of C) \<longrightarrow>
        rel_obj (target_of ar' iar') (base_subobjects inst ! k) (base_subobjects inst' ! k)) \<and>
     (\<forall>k < index. base_subobjects inst' ! k = base_subobjects target ! k)"
  "save h ar C inst = Inr ar' \<Longrightarrow>
   synced h ar iar hL whole \<Longrightarrow> prefix (out_stream ar') whole \<Longrightarrow>
   skeleton C inst \<Longrightarrow> skeleton C target \<Longrightarrow>
   \<exists>inst' iar' hL'.
     load iar hL C target = Inr (inst', iar', hL') \<and>
     synced h ar' iar' hL' whole \<and> target_of ar iar \<subseteq>\<^sub>m target_of ar' iar' \<and>
     skeleton C inst' \<and> rel_obj (target_of ar' iar') inst inst'"
  "OutputArchive_call h ar name T v = Inr ar' \<Longrightarrow>
   synced h ar iar hL whole \<Longrightarrow> prefix (out_stream ar') whole \<Longrightarrow>
   skeleton_val T v \<Longrightarrow> skeleton_val T tv \<Longrightarrow>
   \<exists>v' iar' hL'.
     InputArchive_call iar hL T tv = Inr (v', iar', hL') \<and>
     synced h ar' iar' hL' whole \<and> target_of ar iar \<subseteq>\<^sub>m target_of ar' iar' \<and>
     skeleton_val T v' \<and> rel_val (target_of ar' iar') v v'"
proof (induction h ar C n index inst and h ar C index inst and h ar C inst and h ar name T v
       arbitrary: ar' iar hL target m and ar' iar hL target and ar' iar hL target and ar' iar hL tv
       rule: saveHelper_saveParents_save_OutputArchive_call.induct)
  case (1 h ar C memberCount' index inst)
  from "1.prems"(1) obtain s ar1 name ar2 where
    s: "ClassSingleton_ctor C = Inr s" and g: "0 < memberCount s" "index < memberCount s"
    and p: "(if index = 0 \<and> 0 < baseCount s then saveParents h ar C 0 inst else Inr ar) = Inr ar1"
    and t: "index < length (member_values inst)"
    and nm: "memberAtIndex s index = Inr name"
    and c: "OutputArchive_call h ar1 (Some name) (type_of (member_info C index))
              (member_ref_const inst index) = Inr ar2"
    and r: "(if index + 1 < memberCount s
             then saveHelper h ar2 C (memberCount s) (index + 1) inst else Inr ar2) = Inr ar'"
    by (auto simp: saveHelper.simps [of h ar C memberCount' index] and_then_eq_Inr split: if_splits)
  note cnt = ClassSingleton_ctor_counts [OF s]
  let ?mc = "length (nonstatic_data_members_of C)" and ?bc = "length (bases_of C)"
  let ?T = "type_of (member_info C index)"
  have idx: "index < ?mc" using g cnt by simp
  have e3: "extends ar2 ar'" using r save_extends(1) by (auto split: if_splits)
  have e2: "extends ar1 ar2" using save_extends(4) [OF c] .
  have pre2: "prefix (out_stream ar2) whole"
    using e3 "1.prems"(3) by (auto simp: extends_def)
  have pre1: "prefix (out_stream ar1) whole"
    using e2 pre2 by (auto simp: extends_def)
  note skI = skeletonD [OF "1.prems"(4)] and skT = skeletonD [OF "1.prems"(5)]
  \<comment> \<open>the bases\<close>
  have "\<exists>target1 iar1 hL1.
      (if index = 0 \<and> 0 < baseCount s then loadParents iar hL C 0 target else Inr (target, iar, hL))
        = Inr (target1, iar1, hL1) \<and>
      synced h ar1 iar1 hL1 whole \<and> target_of ar iar \<subseteq>\<^sub>m target_of ar1 iar1 \<and>
      skeleton C target1 \<and> member_values target1 = member_values target \<and>
      (if index = 0
       then \<forall>k < ?bc. rel_obj (target_of ar1 iar1) (base_subobjects inst ! k) (base_subobjects target1 ! k)
       else base_subobjects target1 = base_subobjects target)"
  proof (cases "index = 0 \<and> 0 < baseCount s")
    case True
    with p have sp: "saveParents h ar C 0 inst = Inr ar1" by simp
    from "1.IH"(1) [OF s _ _ True sp "1.prems"(2) pre1 "1.prems"(4,5)] g
    show ?thesis using True by auto
  next
    case False
    with p have "ar1 = ar" by simp
    then show ?thesis using False "1.prems"(2,5) cnt by auto
  qed
  then obtain target1 iar1 hL1 where
    lp: "(if index = 0 \<and> 0 < baseCount s then loadParents iar hL C 0 target else Inr (target, iar, hL))
          = Inr (target1, iar1, hL1)"
    and sy1: "synced h ar1 iar1 hL1 whole" and le1: "target_of ar iar \<subseteq>\<^sub>m target_of ar1 iar1"
    and sk1: "skeleton C target1" and mv1: "member_values target1 = member_values target"
    and b1: "if index = 0
       then \<forall>k < ?bc. rel_obj (target_of ar1 iar1) (base_subobjects inst ! k) (base_subobjects target1 ! k)
       else base_subobjects target1 = base_subobjects target"
    by blast
  note sk1D = skeletonD [OF sk1]
  \<comment> \<open>the member\<close>
  from "1.IH"(2) [OF s _ _ p _ nm c sy1 pre2, of "member_ref target1 index"] g t skI(4) [OF idx] sk1D(4) [OF idx]
  obtain v' iar2 hL2 where
    lc: "InputArchive_call iar1 hL1 ?T (member_ref target1 index) = Inr (v', iar2, hL2)"
    and sy2: "synced h ar2 iar2 hL2 whole" and le2: "target_of ar1 iar1 \<subseteq>\<^sub>m target_of ar2 iar2"
    and skv: "skeleton_val ?T v'" and rv: "rel_val (target_of ar2 iar2) (member_values inst ! index) v'"
    by (auto simp: member_ref_const_def member_ref_def)
  let ?target2 = "member_ref_assign target1 index v'"
  have sk2: "skeleton C ?target2" using skeleton_member_assign [OF sk1 idx skv] .
  \<comment> \<open>the members that follow\<close>
  have "\<exists>inst' iar' hL'.
      (if index + 1 < memberCount s
       then loadHelper iar2 hL2 C (memberCount s) (index + 1) ?target2
       else Inr (?target2, iar2, hL2)) = Inr (inst', iar', hL') \<and>
      synced h ar' iar' hL' whole \<and> target_of ar2 iar2 \<subseteq>\<^sub>m target_of ar' iar' \<and>
      skeleton C inst' \<and>
      (\<forall>j. index + 1 \<le> j \<and> j < ?mc \<longrightarrow>
         rel_val (target_of ar' iar') (member_values inst ! j) (member_values inst' ! j)) \<and>
      (\<forall>j < index + 1. member_values inst' ! j = member_values ?target2 ! j) \<and>
      base_subobjects inst' = base_subobjects ?target2"
  proof (cases "index + 1 < memberCount s")
    case True
    with r have sr: "saveHelper h ar2 C (memberCount s) (index + 1) inst = Inr ar'" by simp
    from "1.IH"(3) [OF s _ _ p _ nm c True sr sy2 "1.prems"(3,4) sk2, of "memberCount s"] g t
    show ?thesis using True by auto
  next
    case False
    with r have "ar' = ar2" by simp
    then show ?thesis using False sy2 sk2 cnt by auto
  qed
  then obtain inst' iar' hL' where
    lr: "(if index + 1 < memberCount s
       then loadHelper iar2 hL2 C (memberCount s) (index + 1) ?target2
       else Inr (?target2, iar2, hL2)) = Inr (inst', iar', hL')"
    and sy3: "synced h ar' iar' hL' whole" and le3: "target_of ar2 iar2 \<subseteq>\<^sub>m target_of ar' iar'"
    and sk3: "skeleton C inst'"
    and m3: "\<forall>j. index + 1 \<le> j \<and> j < ?mc \<longrightarrow>
         rel_val (target_of ar' iar') (member_values inst ! j) (member_values inst' ! j)"
    and u3: "\<forall>j < index + 1. member_values inst' ! j = member_values ?target2 ! j"
    and b3: "base_subobjects inst' = base_subobjects ?target2"
    by blast
  have run: "loadHelper iar hL C m index target = Inr (inst', iar', hL')"
    using s g lp sk1D(2) idx lc lr
    by (simp add: loadHelper.simps [of iar hL C m index target])
  have le: "target_of ar iar \<subseteq>\<^sub>m target_of ar' iar'"
    using le1 le2 le3 by (blast intro: map_le_trans)
  have members: "rel_val (target_of ar' iar') (member_values inst ! j) (member_values inst' ! j)"
    if "index \<le> j" "j < ?mc" for j
  proof (cases "j = index")
    case True
    have "member_values inst' ! index = v'"
      using u3 sk1D(2) idx by simp
    then show ?thesis using rel_mono(1) [OF rv le3] True by simp
  next
    case False
    then show ?thesis using m3 that by simp
  qed
  have untouched: "member_values inst' ! j = member_values target ! j" if "j < index" for j
    using u3 that mv1 by simp
  have bases: "if index = 0
      then \<forall>k < ?bc. rel_obj (target_of ar' iar') (base_subobjects inst ! k) (base_subobjects inst' ! k)
      else base_subobjects inst' = base_subobjects target"
  proof (cases "index = 0")
    case True
    have "rel_obj (target_of ar' iar') (base_subobjects inst ! k) (base_subobjects inst' ! k)"
      if "k < ?bc" for k
    proof -
      from b1 True that have "rel_obj (target_of ar1 iar1) (base_subobjects inst ! k) (base_subobjects target1 ! k)"
        by simp
      from rel_mono(2) [OF this map_le_trans [OF le2 le3]] show ?thesis by (simp add: b3)
    qed
    then show ?thesis using True by simp
  next
    case False
    then show ?thesis using b1 b3 by simp
  qed
  from run sy3 le sk3 members untouched bases show ?case by blast
next
  case (2 h ar C index inst)
  from "2.prems"(1) obtain s p ar1 where
    s: "ClassSingleton_ctor C = Inr s" and k: "index < length (bases s)"
    and p: "ClassSingleton_ctor (bases s ! index) = Inr p"
    and t: "index < length (base_subobjects inst)"
    and c: "saveHelper h ar (bases s ! index) (memberCount p) 0 (static_cast_base inst index) = Inr ar1"
    and r: "(if index + 1 < baseCount s then saveParents h ar1 C (index + 1) inst else Inr ar1) = Inr ar'"
    by (auto simp: saveParents.simps [of h ar C index] and_then_eq_Inr split: if_splits)
  note cnt = ClassSingleton_ctor_counts [OF s]
  let ?bc = "length (bases_of C)"
  let ?P = "bases s ! index"
  have idx: "index < ?bc" using k cnt by simp
  have P: "?P = bases_of C ! index" using cnt by simp
  have e2: "extends ar1 ar'" using r save_extends(2) by (auto split: if_splits)
  have pre1: "prefix (out_stream ar1) whole"
    using e2 "2.prems"(3) by (auto simp: extends_def)
  note skI = skeletonD [OF "2.prems"(4)] and skT = skeletonD [OF "2.prems"(5)]
  have skPi: "skeleton ?P (static_cast_base inst index)"
    and skPt: "skeleton ?P (static_cast_base target index)"
    using skI(3) [OF idx] skT(3) [OF idx] by (simp_all add: P static_cast_base_def)
  from "2.IH"(1) [OF s _ p _ c "2.prems"(2) pre1 skPi skPt, of "memberCount p"] k t
  obtain b iar1 hL1 where
    lb: "loadHelper iar hL ?P (memberCount p) 0 (static_cast_base target index) = Inr (b, iar1, hL1)"
    and sy1: "synced h ar1 iar1 hL1 whole" and le1: "target_of ar iar \<subseteq>\<^sub>m target_of ar1 iar1"
    and skb: "skeleton ?P b"
    and rm: "\<forall>j. 0 \<le> j \<and> j < length (nonstatic_data_members_of ?P) \<longrightarrow>
        rel_val (target_of ar1 iar1) (member_values (static_cast_base inst index) ! j) (member_values b ! j)"
    and rbs: "\<forall>k < length (bases_of ?P).
        rel_obj (target_of ar1 iar1) (base_subobjects (static_cast_base inst index) ! k) (base_subobjects b ! k)"
    by auto
  have rb: "rel_obj (target_of ar1 iar1) (static_cast_base inst index) b"
    using rm rbs skeletonD(1,2) [OF skPi] skeletonD(1,2) [OF skb]
    by (simp add: rel_obj_sel [of _ "static_cast_base inst index"] list_all2_conv_all_nth)
  let ?target1 = "static_cast_base_assign target index b"
  have sk1: "skeleton C ?target1"
    using skeleton_base_assign [OF "2.prems"(5) idx] skb by (simp add: P)
  have "\<exists>inst' iar' hL'.
      (if index + 1 < baseCount s
       then loadParents iar1 hL1 C (index + 1) ?target1
       else Inr (?target1, iar1, hL1)) = Inr (inst', iar', hL') \<and>
      synced h ar' iar' hL' whole \<and> target_of ar1 iar1 \<subseteq>\<^sub>m target_of ar' iar' \<and>
      skeleton C inst' \<and> member_values inst' = member_values ?target1 \<and>
      (\<forall>k. index + 1 \<le> k \<and> k < ?bc \<longrightarrow>
         rel_obj (target_of ar' iar') (base_subobjects inst ! k) (base_subobjects inst' ! k)) \<and>
      (\<forall>k < index + 1. base_subobjects inst' ! k = base_subobjects ?target1 ! k)"
  proof (cases "index + 1 < baseCount s")
    case True
    with r have sr: "saveParents h ar1 C (index + 1) inst = Inr ar'" by simp
    from "2.IH"(2) [OF s _ p _ c True sr sy1 "2.prems"(3,4) sk1] k t
    show ?thesis using True by auto
  next
    case False
    with r have "ar' = ar1" by simp
    then show ?thesis using False sy1 sk1 cnt by auto
  qed
  then obtain inst' iar' hL' where
    lr: "(if index + 1 < baseCount s
       then loadParents iar1 hL1 C (index + 1) ?target1
       else Inr (?target1, iar1, hL1)) = Inr (inst', iar', hL')"
    and sy2: "synced h ar' iar' hL' whole" and le2: "target_of ar1 iar1 \<subseteq>\<^sub>m target_of ar' iar'"
    and sk2: "skeleton C inst'" and mv2: "member_values inst' = member_values ?target1"
    and b2: "\<forall>k. index + 1 \<le> k \<and> k < ?bc \<longrightarrow>
         rel_obj (target_of ar' iar') (base_subobjects inst ! k) (base_subobjects inst' ! k)"
    and u2: "\<forall>k < index + 1. base_subobjects inst' ! k = base_subobjects ?target1 ! k"
    by blast
  have run: "loadParents iar hL C index target = Inr (inst', iar', hL')"
    using s k p skT(1) idx lb lr
    by (simp add: loadParents.simps [of iar hL C index target])
  have le: "target_of ar iar \<subseteq>\<^sub>m target_of ar' iar'"
    using le1 le2 by (blast intro: map_le_trans)
  have bases: "rel_obj (target_of ar' iar') (base_subobjects inst ! k) (base_subobjects inst' ! k)"
    if "index \<le> k" "k < ?bc" for k
  proof (cases "k = index")
    case True
    have "base_subobjects inst' ! index = b" using u2 skT(1) idx by simp
    then show ?thesis using rel_mono(2) [OF rb le2] True by (simp add: static_cast_base_def)
  next
    case False
    then show ?thesis using b2 that by simp
  qed
  have untouched: "base_subobjects inst' ! k = base_subobjects target ! k" if "k < index" for k
    using u2 that by simp
  from run sy2 le sk2 mv2 bases untouched show ?case by auto
next
  case (3 h ar C inst)
  from "3.prems"(1) obtain s where
    s: "ClassSingleton_ctor C = Inr s"
    and c: "saveHelper h ar C (memberCount s) 0 inst = Inr ar'"
    by (auto simp: save.simps and_then_eq_Inr)
  from "3.IH" [OF s c "3.prems"(2-5), of "memberCount s"]
  obtain inst' iar' hL' where
    l: "loadHelper iar hL C (memberCount s) 0 target = Inr (inst', iar', hL')"
    and sy: "synced h ar' iar' hL' whole" and le: "target_of ar iar \<subseteq>\<^sub>m target_of ar' iar'"
    and sk: "skeleton C inst'"
    and rm: "\<forall>j. 0 \<le> j \<and> j < length (nonstatic_data_members_of C) \<longrightarrow>
        rel_val (target_of ar' iar') (member_values inst ! j) (member_values inst' ! j)"
    and rbs: "\<forall>k < length (bases_of C).
        rel_obj (target_of ar' iar') (base_subobjects inst ! k) (base_subobjects inst' ! k)"
    by auto
  have "rel_obj (target_of ar' iar') inst inst'"
    using rm rbs skeletonD(1,2) [OF "3.prems"(4)] skeletonD(1,2) [OF sk]
    by (simp add: rel_obj_sel [of _ inst] list_all2_conv_all_nth)
  moreover have "load iar hL C target = Inr (inst', iar', hL')"
    using s l by (simp add: load.simps)
  ultimately show ?case using sy le sk by blast
next
  case (4 h ar name T s)
  from "4.prems"(1) obtain t where T: "T = ScalarT t" and sv: "save_scalar ar name t s = Inr ar'"
    by (cases T) auto
  from scalar_step [OF sv "4.prems"(2,3)] show ?case by (auto simp: T)
next
  case (5 h ar name T p)
  from "5.prems"(1) obtain t where T: "T = SharedT t" and sv: "save_shared_ptr h ar name t p = Inr ar'"
    by (cases T) auto
  from shared_ptr_step [OF sv "5.prems"(2,3)] show ?case by (auto simp: T)
next
  case (6 h ar name T inst)
  from "6.prems"(1) obtain C ar1 where T: "T = ClassT C"
    and sv: "save h (startNode ar name) C inst = Inr ar1" and ar': "ar' = finishNode ar1"
    by (cases T) (auto simp: and_then_eq_Inr)
  from "6.prems"(5) obtain target where tv: "tv = ObjV target" and skT: "skeleton C target"
    by (cases tv) (auto simp: T)
  from "6.prems"(4) have skI: "skeleton C inst" by (simp add: T)
  have pre1: "prefix (out_stream ar1) whole"
    using "6.prems"(3) finishNode_extends [of ar1] by (auto simp: ar' extends_def)
  have pre0: "prefix (out_stream (startNode ar name)) whole"
    using save_extends(3) [OF sv] pre1 by (auto simp: extends_def)
  from startNode_step [OF "6.prems"(2) pre0] obtain iar0 where
    l0: "startNode_in iar = Inr iar0" and sy0: "synced h (startNode ar name) iar0 hL whole"
    and eq0: "target_of (startNode ar name) iar0 = target_of ar iar" by blast
  from "6.IH" [OF T sv sy0 pre1 skI skT] obtain inst' iar1 hL1 where
    l1: "load iar0 hL C target = Inr (inst', iar1, hL1)"
    and sy1: "synced h ar1 iar1 hL1 whole"
    and le1: "target_of (startNode ar name) iar0 \<subseteq>\<^sub>m target_of ar1 iar1"
    and sk1: "skeleton C inst'" and r1: "rel_obj (target_of ar1 iar1) inst inst'"
    by blast
  from finishNode_step [OF sy1 "6.prems"(3) [unfolded ar']] obtain iar2 where
    l2: "finishNode_in iar1 = Inr iar2" and sy2: "synced h (finishNode ar1) iar2 hL1 whole"
    and eq2: "target_of (finishNode ar1) iar2 = target_of ar1 iar1" by blast
  have "InputArchive_call iar hL T tv = Inr (ObjV inst', iar2, hL1)"
    using l0 l1 l2 by (simp add: T tv)
  then show ?case using sy2 le1 sk1 r1 by (auto simp: ar' eq0 eq2 T)
qed

lemma descriptors_valid_simps [simp]:
  "descriptors_valid [] = True"
  "descriptors_valid ((C, index) # cs) = (names_in_bounds C \<and> valid_identifiers C \<and> descriptors_valid cs)"
  "descriptors_valid (xs @ ys) = (descriptors_valid xs \<and> descriptors_valid ys)"
  by (simp_all add: descriptors_valid_def)

lemma instance_ofD:
  assumes "instance_of h C t"
  shows "length (base_subobjects t) = length (bases_of C)"
    and "length (member_values t) = length (nonstatic_data_members_of C)"
    and "\<And>k. k < length (bases_of C) \<Longrightarrow> instance_of h (bases_of C ! k) (base_subobjects t ! k)"
    and "\<And>i. i < length (nonstatic_data_members_of C) \<Longrightarrow>
           value_of h (type_of (member_info C i)) (member_values t ! i)"
  using assms by (simp_all add: instance_of.simps [of h C t])

lemma save_succeeds:
  "instance_of h C inst \<Longrightarrow> ordinals_in_range (helper_calls C index) \<Longrightarrow>
   descriptors_valid (helper_calls C index) \<Longrightarrow> \<exists>ar'. saveHelper h ar C n index inst = Inr ar'"
  "instance_of h C inst \<Longrightarrow> ordinals_in_range (parents_calls C index) \<Longrightarrow>
   descriptors_valid (parents_calls C index) \<Longrightarrow> names_in_bounds C \<Longrightarrow> valid_identifiers C \<Longrightarrow>
   index < length (bases_of C) \<Longrightarrow> \<exists>ar'. saveParents h ar C index inst = Inr ar'"
  "instance_of h C inst \<Longrightarrow> ordinals_in_range (helper_calls C 0) \<Longrightarrow>
   descriptors_valid (helper_calls C 0) \<Longrightarrow> \<exists>ar'. save h ar C inst = Inr ar'"
  "value_of h T v \<Longrightarrow> ordinals_in_range (archive_calls T) \<Longrightarrow>
   descriptors_valid (archive_calls T) \<Longrightarrow> \<exists>ar'. OutputArchive_call h ar name T v = Inr ar'"
proof (induction h ar C n index inst and h ar C index inst and h ar C inst and h ar name T v
       rule: saveHelper_saveParents_save_OutputArchive_call.induct)
  case (1 h ar C memberCount' index inst)
  let ?ms = "nonstatic_data_members_of C"
  from "1.prems"(2,3) have idx: "index < length ?ms" and nb: "names_in_bounds C" and vi: "valid_identifiers C"
    by (auto simp: helper_calls.simps [of C index])
  define s where "s = \<lparr> memberNamesStrings = map identifier_of ?ms,
           memberCount = length ?ms, baseCount = length (bases_of C), bases = bases_of C \<rparr>"
  have s: "ClassSingleton_ctor C = Inr s" using ClassSingleton_ctor_ok [OF nb vi] by (simp add: s_def)
  have ne: "0 < length ?ms" "?ms \<noteq> []" using idx by auto
  have g: "0 < memberCount s" "index < memberCount s" using idx ne by (simp_all add: s_def)
  from "1.prems"(2,3) idx ne have
    calls: "index = 0 \<and> 0 < baseCount s \<longrightarrow>
              ordinals_in_range (parents_calls C 0) \<and> descriptors_valid (parents_calls C 0)"
      "ordinals_in_range (archive_calls (type_of (member_info C index)))"
      "descriptors_valid (archive_calls (type_of (member_info C index)))"
      "index + 1 < memberCount s \<longrightarrow>
         ordinals_in_range (helper_calls C (index + 1)) \<and> descriptors_valid (helper_calls C (index + 1))"
    by (auto simp: helper_calls.simps [of C index] s_def)
  note iD = instance_ofD [OF "1.prems"(1)]
  have "\<exists>ar1. (if index = 0 \<and> 0 < baseCount s then saveParents h ar C 0 inst else Inr ar) = Inr ar1"
  proof (cases "index = 0 \<and> 0 < baseCount s")
    case True
    from "1.IH"(1) [OF s _ _ True "1.prems"(1) _ _ nb vi] g calls(1) True
    obtain ar1 where "saveParents h ar C 0 inst = Inr ar1" by (auto simp: s_def)
    then show ?thesis using True by simp
  next
    case False
    then show ?thesis by auto
  qed
  then obtain ar1 where p: "(if index = 0 \<and> 0 < baseCount s then saveParents h ar C 0 inst else Inr ar) = Inr ar1" by blast
  have t: "index < length (member_values inst)" using iD(2) idx by simp
  have nm: "memberAtIndex s index = Inr (identifier_of (?ms ! index))"
    using idx by (simp add: memberAtIndex_def s_def)
  from "1.IH"(2) [OF s _ _ p _ nm _ calls(2,3)] g t iD(4) [OF idx]
  obtain ar2 where c: "OutputArchive_call h ar1 (Some (identifier_of (?ms ! index)))
       (type_of (member_info C index)) (member_ref_const inst index) = Inr ar2"
    by (auto simp: member_ref_const_def)
  have "\<exists>ar'. (if index + 1 < memberCount s
             then saveHelper h ar2 C (memberCount s) (index + 1) inst else Inr ar2) = Inr ar'"
  proof (cases "index + 1 < memberCount s")
    case True
    from "1.IH"(3) [OF s _ _ p _ nm c True "1.prems"(1)] g t calls(4) True
    obtain ar' where "saveHelper h ar2 C (memberCount s) (index + 1) inst = Inr ar'" by auto
    then show ?thesis using True by simp
  next
    case False
    then show ?thesis by auto
  qed
  then obtain ar' where r: "(if index + 1 < memberCount s
             then saveHelper h ar2 C (memberCount s) (index + 1) inst else Inr ar2) = Inr ar'" by blast
  show ?case
    using s g p t nm c r by (simp add: saveHelper.simps [of h ar C memberCount' index])
next
  case (2 h ar C index inst)
  let ?ms = "nonstatic_data_members_of C"
  note nb = "2.prems"(4) and vi = "2.prems"(5) and idx = "2.prems"(6)
  define s where "s = \<lparr> memberNamesStrings = map identifier_of ?ms,
           memberCount = length ?ms, baseCount = length (bases_of C), bases = bases_of C \<rparr>"
  have s: "ClassSingleton_ctor C = Inr s" using ClassSingleton_ctor_ok [OF nb vi] by (simp add: s_def)
  have k: "index < length (bases s)" using idx by (simp add: s_def)
  let ?P = "bases s ! index"
  have P: "?P = bases_of C ! index" by (simp add: s_def)
  from "2.prems"(2,3) idx have
    calls: "ordinals_in_range (helper_calls ?P 0)" "descriptors_valid (helper_calls ?P 0)"
      "index + 1 < baseCount s \<longrightarrow>
         ordinals_in_range (parents_calls C (index + 1)) \<and> descriptors_valid (parents_calls C (index + 1))"
    by (auto simp: parents_calls.simps [of C index] s_def)
  from calls(2) have nbP: "names_in_bounds ?P" "valid_identifiers ?P"
    by (auto simp: helper_calls.simps [of ?P 0])
  obtain p where p: "ClassSingleton_ctor ?P = Inr p"
    using ClassSingleton_ctor_ok [OF nbP] by simp
  note iD = instance_ofD [OF "2.prems"(1)]
  have t: "index < length (base_subobjects inst)" using iD(1) idx by simp
  from "2.IH"(1) [OF s _ p _ _ calls(1,2)] k t iD(3) [OF idx]
  obtain ar1 where c: "saveHelper h ar ?P (memberCount p) 0 (static_cast_base inst index) = Inr ar1"
    by (auto simp: static_cast_base_def P)
  have "\<exists>ar'. (if index + 1 < baseCount s then saveParents h ar1 C (index + 1) inst else Inr ar1) = Inr ar'"
  proof (cases "index + 1 < baseCount s")
    case True
    from "2.IH"(2) [OF s _ p _ c True "2.prems"(1) _ _ nb vi] k t calls(3) True
    obtain ar' where "saveParents h ar1 C (index + 1) inst = Inr ar'" by (auto simp: s_def)
    then show ?thesis using True by simp
  next
    case False
    then show ?thesis by auto
  qed
  then obtain ar' where r: "(if index + 1 < baseCount s then saveParents h ar1 C (index + 1) inst else Inr ar1) = Inr ar'" by blast
  show ?case
    using s k p t c r by (simp add: saveParents.simps [of h ar C index])
next
  case (3 h ar C inst)
  from "3.prems"(3) have nb: "names_in_bounds C" "valid_identifiers C"
    by (auto simp: helper_calls.simps [of C 0])
  obtain s where s: "ClassSingleton_ctor C = Inr s" using ClassSingleton_ctor_ok [OF nb] by simp
  from "3.IH" [OF s "3.prems"] show ?case using s by (simp add: save.simps)
next
  case (4 h ar name T s)
  then show ?case by (cases T) (auto simp: save_scalar_def)
next
  case (5 h ar name T p)
  then show ?case
    by (cases T) (auto simp: save_shared_ptr_def split: option.splits)
next
  case (6 h ar name T inst)
  show ?case
  proof (cases T)
    case (ClassT C)
    from "6.IH" [OF ClassT] "6.prems" obtain ar1 where "save h (startNode ar name) C inst = Inr ar1"
      by (auto simp: ClassT)
    then show ?thesis by (simp add: ClassT)
  qed (use "6.prems" in auto)
qed

lemma rel_structurally_equal:
  "rel_val (target_of ar iar) v v' \<Longrightarrow> synced hS ar iar hL whole \<Longrightarrow> structurally_equal hS v hL v'"
  "rel_obj (target_of ar iar) inst inst' \<Longrightarrow> synced hS ar iar hL whole \<Longrightarrow>
     structurally_equal_obj hS inst hL inst'"
proof (induction "target_of ar iar" v v' and "target_of ar iar" inst inst' rule: rel_val_rel_obj.induct)
  case (3 a v')
  from "3.prems"(1) obtain i b where i: "map_of (out_shared ar) a = Some i"
    and b: "map_of (in_shared iar) i = Some b" and v': "v' = SharedV (Some b)"
    by (auto simp: target_of_def split: option.splits)
  from "3.prems"(2) i obtain b' where "map_of (in_shared iar) i = Some b'"
    "a < length hS" "b' < length hL" "hL ! b' = hS ! a"
    unfolding synced_def by blast
  with b v' show ?case by simp
next
  case (4 inst v')
  then show ?case by (cases v') auto
next
  case (5 bs vs inst')
  from "5.prems" have 1: "list_all2 (rel_obj (target_of ar iar)) bs (base_subobjects inst')"
    and 2: "list_all2 (rel_val (target_of ar iar)) vs (member_values inst')" by auto
  have "list_all2 (\<lambda>b b'. structurally_equal_obj hS b hL b') bs (base_subobjects inst')"
    using 1 "5.hyps"(1) "5.prems"(2) by (auto simp: list_all2_conv_all_nth)
  moreover have "list_all2 (\<lambda>v v'. structurally_equal hS v hL v') vs (member_values inst')"
    using 2 "5.hyps"(2) "5.prems"(2) by (auto simp: list_all2_conv_all_nth)
  ultimately show ?case by simp
qed auto

lemma synced_start: "synced hS (OutputArchive_on b []) (InputArchive_on b whole) hL whole"
  by (simp add: synced_def OutputArchive_on_def InputArchive_on_def)

lemma round_trip_general:
  assumes iI: "instance_of hS C inst" and iT: "instance_of hL C target"
    and rng: "ordinals_in_range (helper_calls C 0)" and dv: "descriptors_valid (helper_calls C 0)"
  shows "\<exists>ar' inst' iar' hL'.
     save hS (OutputArchive_on b []) C inst = Inr ar' \<and>
     load (InputArchive_on b (out_stream ar' @ rest)) hL C target = Inr (inst', iar', hL') \<and>
     in_stream iar' = rest \<and> synced hS ar' iar' hL' (out_stream ar' @ rest) \<and>
     rel_obj (target_of ar' iar') inst inst'"
proof -
  from save_succeeds(3) [OF iI rng dv] obtain ar' where
    sv: "save hS (OutputArchive_on b []) C inst = Inr ar'" by blast
  let ?whole = "out_stream ar' @ rest"
  from load_follows_save(3) [OF sv synced_start [where hL = hL and whole = ?whole] _
      instance_of_skeleton(1) [OF iI] instance_of_skeleton(1) [OF iT]]
  obtain inst' iar' hL' where
    ld: "load (InputArchive_on b ?whole) hL C target = Inr (inst', iar', hL')"
    and sy: "synced hS ar' iar' hL' ?whole"
    and r: "rel_obj (target_of ar' iar') inst inst'"
    by auto
  from sy have "in_stream iar' = rest" by (simp add: synced_def)
  with sv ld sy r show ?thesis by blast
qed

lemma pleh_round_trip:
  "to_json None (ClassT Pleh) \<lparr> frame_obj = ObjV pleh, frame_heap = [], frame_stream = [] \<rparr>
     = Inr \<lparr> frame_obj = ObjV pleh, frame_heap = [], frame_stream = pleh_json \<rparr>"
  "from_json (ClassT Pleh) \<lparr> frame_obj = ObjV pleh_copy, frame_heap = [], frame_stream = pleh_json \<rparr>
     = Inr \<lparr> frame_obj = ObjV pleh, frame_heap = [], frame_stream = [] \<rparr>"
  "to_json_string None (ClassT Pleh) [] (ObjV pleh) = Inr pleh_json"
  "from_json_string (ClassT Pleh) [] (ObjV pleh_copy) pleh_json = Inr (ObjV pleh, [])"
  by (simp_all add: run_simps Pleh_singleton_def pleh_def pleh_copy_def pleh_json_def)

lemma first_occurrences_simps [simp]:
  "first_occurrences i [] = 0"
  "first_occurrences i (ts @ [Value name s]) = first_occurrences i ts"
  "first_occurrences i (ts @ [StartNode name]) = first_occurrences i ts"
  "first_occurrences i (ts @ [FinishNode]) = first_occurrences i ts"
  "first_occurrences i (ts @ [NullPtr name]) = first_occurrences i ts"
  "first_occurrences i (ts @ [BackRef name j]) = first_occurrences i ts"
  "first_occurrences i (ts @ [NewPtr name j s]) = first_occurrences i ts + (if j = i then 1 else 0)"
  by (simp_all add: first_occurrences_def first_occurrence_of_def)

lemma save_counted:
  "save h ar C inst = Inr ar' \<Longrightarrow> counted ar \<Longrightarrow> counted ar'"
proof (erule save_preserves(3) [rotated 4])
  fix ar name t s ar'
  show "counted ar \<Longrightarrow> save_scalar ar name t s = Inr ar' \<Longrightarrow> counted ar'"
    by (auto simp: save_scalar_def counted_def emit_def split: if_splits)
next
  fix h ar name t p ar'
  assume c: "counted ar" and sv: "save_shared_ptr h ar name t p = Inr ar'"
  show "counted ar'"
  proof (cases p)
    case None
    with c sv show ?thesis by (auto simp: save_shared_ptr_def counted_def emit_def)
  next
    case (Some a)
    show ?thesis
    proof (cases "map_of (out_shared ar) a")
      case reg: (Some i)
      with c sv Some show ?thesis by (auto simp: save_shared_ptr_def counted_def emit_def)
    next
      case reg: None
      with sv Some have ar': "ar' = (emit (NewPtr (nvp_name (out_backend ar) name)
            (Suc (length (out_shared ar))) (h ! a)) ar)\<lparr>out_shared := (a, Suc (length (out_shared ar))) # out_shared ar\<rparr>"
        by (auto simp: save_shared_ptr_def split: if_splits)
      from c show ?thesis
        unfolding counted_def ar' by (auto simp: emit_def le_Suc_eq)
    qed
  qed
next
  fix ar name
  show "counted ar \<Longrightarrow> counted (startNode ar name)"
    by (auto simp: startNode_def counted_def emit_def)
next
  fix ar
  show "counted ar \<Longrightarrow> counted (finishNode ar)"
    by (auto simp: finishNode_def counted_def emit_def)
qed

lemma counted_start: "counted (OutputArchive_on b [])"
  by (simp add: counted_def OutputArchive_on_def)

lemma all_less_Suc: "(\<forall>i < Suc n. P i) = (P n \<and> (\<forall>i < n. P i))"
  by (auto simp: less_Suc_eq)

lemma Wibble_instances:
  "instance_of [StringV ''womble''] Wibble wibble" "instance_of [] Wibble wibble_copy"
  by (subst instance_of.simps,
      simp add: Wibble_def wibble_def wibble_copy_def member_info_def type_of_def all_less_Suc)+

lemma Wibble_calls:
  "ordinals_in_range (helper_calls Wibble 0)" "descriptors_valid (helper_calls Wibble 0)"
  by (simp_all add: helper_calls.simps parents_calls.simps Wibble_def
        member_info_def type_of_def names_in_bounds_def valid_identifiers_def
        valid_identifier_def identifier_of_def MAX_CLASS_MEMBERS_def MAX_IDENTIFIER_LENGTH_def NUL_def)

lemmas Wibble_ok = Wibble_instances Wibble_calls

lemma Parent_instance: "instance_of h Parent (Obj [] [ScalarV (IntV x)])"
  by (subst instance_of.simps) (simp add: class_simps member_info_def type_of_def)

lemma Child_instance: "instance_of h Child (Obj [Obj [] [ScalarV (IntV x)]] [ScalarV (IntV y)])"
  by (subst instance_of.simps) (simp add: class_simps member_info_def type_of_def Parent_instance)

lemma Child_calls:
  "ordinals_in_range (helper_calls Child 0)" "descriptors_valid (helper_calls Child 0)"
  by (simp_all add: helper_calls.simps parents_calls.simps class_simps
        member_info_def type_of_def names_in_bounds_def valid_identifiers_def
        valid_identifier_def identifier_of_def MAX_CLASS_MEMBERS_def MAX_IDENTIFIER_LENGTH_def NUL_def)

lemma Derived_instance: "instance_of [] Derived derived"
  by (subst instance_of.simps) (simp add: Derived_def derived_def Parent_instance)

section \<open>Classes whose traversal does not build\<close>

lemma ClassSingleton_ctor_Derived:
  "ClassSingleton_ctor Derived
     = Inr \<lparr> memberNamesStrings = [], memberCount = 0, baseCount = 1, bases = [Parent] \<rparr>"
  using ClassSingleton_ctor_no_members [of Derived] by (simp add: Derived_def)

lemma ClassSingleton_ctor_HasDerivedBase:
  "ClassSingleton_ctor HasDerivedBase
     = Inr \<lparr> memberNamesStrings = [''own''], memberCount = 1, baseCount = 1, bases = [Derived] \<rparr>"
  using ClassSingleton_ctor_ok [of HasDerivedBase]
  by (simp add: names_in_bounds_def valid_identifiers_def valid_identifier_def HasDerivedBase_def
        identifier_of_def MAX_CLASS_MEMBERS_def MAX_IDENTIFIER_LENGTH_def NUL_def)

lemma ClassSingleton_ctor_HasLongNameBase:
  "ClassSingleton_ctor HasLongNameBase
     = Inr \<lparr> memberNamesStrings = [''own''], memberCount = 1, baseCount = 1, bases = [LongName] \<rparr>"
  using ClassSingleton_ctor_ok [of HasLongNameBase]
  by (simp add: names_in_bounds_def valid_identifiers_def valid_identifier_def HasLongNameBase_def
        identifier_of_def MAX_CLASS_MEMBERS_def MAX_IDENTIFIER_LENGTH_def NUL_def)

lemma ClassSingleton_ctor_LongName: "ClassSingleton_ctor LongName = Inl ConstevalAssert"
  by (simp add: ClassSingleton_ctor_fails names_in_bounds_def LongName_def identifier_of_def
        MAX_IDENTIFIER_LENGTH_def)

lemma HasDerivedBase_instance: "instance_of [] HasDerivedBase has_derived_base"
  by (subst instance_of.simps)
     (simp add: HasDerivedBase_def has_derived_base_def Derived_instance member_info_def type_of_def)

lemma HasLongNameBase_instance: "instance_of [] HasLongNameBase has_long_name_base"
proof -
  have "instance_of [] LongName (Obj [] [ScalarV (IntV 0)])"
    by (subst instance_of.simps) (simp add: LongName_def member_info_def type_of_def)
  then show ?thesis
    by (subst instance_of.simps)
       (simp add: HasLongNameBase_def has_long_name_base_def member_info_def type_of_def)
qed

lemma HasDerivedBase_rejected:
  "save h ar HasDerivedBase has_derived_base = Inl StaticAssert"
  "load iar h HasDerivedBase has_derived_base = Inl StaticAssert"
  by (simp_all add: save.simps load.simps saveHelper.simps loadHelper.simps saveParents.simps
        loadParents.simps ClassSingleton_ctor_HasDerivedBase ClassSingleton_ctor_Derived
        has_derived_base_def)

lemma HasLongNameBase_rejected:
  "save h ar HasLongNameBase has_long_name_base = Inl ConstevalAssert"
  "load iar h HasLongNameBase has_long_name_base = Inl ConstevalAssert"
  by (simp_all add: save.simps load.simps saveHelper.simps loadHelper.simps saveParents.simps
        loadParents.simps ClassSingleton_ctor_HasLongNameBase ClassSingleton_ctor_LongName
        has_long_name_base_def)

text \<open>
  C1. Take a class such that it and every class reached from it (its bases,
  their bases, the classes of its members) is within the bounds on its names
  and has at least one data member, and take an instance of it. Saving it into
  an archive of any of the three backends succeeds, and loading from what was
  written (followed by anything) into an instance of the same class succeeds,
  reads exactly what was written, and yields an instance structurally equal to
  the saved one. The instance \<open>{foo = 1, bar = ''PLEH!''}\<close> comes back with
  \<open>foo = 1\<close> and \<open>bar = ''PLEH!''\<close> through JSON, both with the functions
  bound to a stream and with those bound to a string.
\<close>

theorem round_trip:
  "(instance_of hS C inst \<longrightarrow> instance_of hL C target \<longrightarrow>
    ordinals_in_range (helper_calls C 0) \<longrightarrow> descriptors_valid (helper_calls C 0) \<longrightarrow>
    (\<exists>ar' inst' iar' hL'.
       save hS (OutputArchive_on b []) C inst = Inr ar' \<and>
       load (InputArchive_on b (out_stream ar' @ rest)) hL C target = Inr (inst', iar', hL') \<and>
       in_stream iar' = rest \<and> structurally_equal_obj hS inst hL' inst')) \<and>
   to_json None (ClassT Pleh) \<lparr> frame_obj = ObjV pleh, frame_heap = [], frame_stream = [] \<rparr>
     = Inr \<lparr> frame_obj = ObjV pleh, frame_heap = [], frame_stream = pleh_json \<rparr> \<and>
   from_json (ClassT Pleh) \<lparr> frame_obj = ObjV pleh_copy, frame_heap = [], frame_stream = pleh_json \<rparr>
     = Inr \<lparr> frame_obj = ObjV pleh, frame_heap = [], frame_stream = [] \<rparr> \<and>
   to_json_string None (ClassT Pleh) [] (ObjV pleh) = Inr pleh_json \<and>
   from_json_string (ClassT Pleh) [] (ObjV pleh_copy) pleh_json = Inr (ObjV pleh, [])"
proof -
  have "\<exists>ar' inst' iar' hL'.
       save hS (OutputArchive_on b []) C inst = Inr ar' \<and>
       load (InputArchive_on b (out_stream ar' @ rest)) hL C target = Inr (inst', iar', hL') \<and>
       in_stream iar' = rest \<and> structurally_equal_obj hS inst hL' inst'"
    if "instance_of hS C inst" "instance_of hL C target"
      "ordinals_in_range (helper_calls C 0)" "descriptors_valid (helper_calls C 0)"
  proof -
    from round_trip_general [OF that, of b rest] obtain ar' inst' iar' hL' where
      1: "save hS (OutputArchive_on b []) C inst = Inr ar'"
        "load (InputArchive_on b (out_stream ar' @ rest)) hL C target = Inr (inst', iar', hL')"
        "in_stream iar' = rest"
      and 2: "synced hS ar' iar' hL' (out_stream ar' @ rest)"
        "rel_obj (target_of ar' iar') inst inst'"
      by blast
    from rel_structurally_equal(2) [OF 2(2,1)] 1 show ?thesis by blast
  qed
  with pleh_round_trip show ?thesis by blast
qed

theorem round_trip_witness:
  "instance_of [] Child child \<and> instance_of [] Child child_copy \<and>
   ordinals_in_range (helper_calls Child 0) \<and> descriptors_valid (helper_calls Child 0) \<and>
   (\<exists>ar' inst' iar' hL'.
       save [] (OutputArchive_on XML []) Child child = Inr ar' \<and>
       load (InputArchive_on XML (out_stream ar' @ [FinishNode])) [] Child child_copy
         = Inr (inst', iar', hL') \<and>
       in_stream iar' = [FinishNode] \<and> structurally_equal_obj [] child hL' inst')"
proof -
  have 1: "instance_of [] Child child" "instance_of [] Child child_copy"
    by (simp_all add: child_def child_copy_def Child_instance)
  from round_trip [of "[]" Child child "[]" child_copy XML "[FinishNode]"] 1 Child_calls
  show ?thesis by blast
qed

text \<open>
  Three classes within the bounds, each with its singleton built and with an
  instance, that are not saved, whatever the backend. \<open>Derived\<close> has no
  member of its own. \<open>HasDerivedBase\<close> has one, and its base \<open>Derived\<close> has
  none. \<open>HasLongNameBase\<close> has one, and the singleton of its base is not built.
\<close>

theorem valid_descriptor_not_saved:
  "names_in_bounds Derived \<and> valid_identifiers Derived \<and>
   ClassSingleton_ctor Derived
     = Inr \<lparr> memberNamesStrings = [], memberCount = 0, baseCount = 1, bases = [Parent] \<rparr> \<and>
   instance_of [] Derived derived \<and>
   save [] (OutputArchive_on Binary []) Derived derived = Inl StaticAssert \<and>
   save [] (OutputArchive_on JSON []) Derived derived = Inl StaticAssert \<and>
   save [] (OutputArchive_on XML []) Derived derived = Inl StaticAssert \<and>
   names_in_bounds HasDerivedBase \<and> valid_identifiers HasDerivedBase \<and>
   ClassSingleton_ctor HasDerivedBase
     = Inr \<lparr> memberNamesStrings = [''own''], memberCount = 1, baseCount = 1, bases = [Derived] \<rparr> \<and>
   instance_of [] HasDerivedBase has_derived_base \<and>
   save [] (OutputArchive_on Binary []) HasDerivedBase has_derived_base = Inl StaticAssert \<and>
   save [] (OutputArchive_on JSON []) HasDerivedBase has_derived_base = Inl StaticAssert \<and>
   save [] (OutputArchive_on XML []) HasDerivedBase has_derived_base = Inl StaticAssert \<and>
   names_in_bounds HasLongNameBase \<and> valid_identifiers HasLongNameBase \<and>
   ClassSingleton_ctor HasLongNameBase
     = Inr \<lparr> memberNamesStrings = [''own''], memberCount = 1, baseCount = 1, bases = [LongName] \<rparr> \<and>
   instance_of [] HasLongNameBase has_long_name_base \<and>
   save [] (OutputArchive_on Binary []) HasLongNameBase has_long_name_base = Inl ConstevalAssert \<and>
   save [] (OutputArchive_on JSON []) HasLongNameBase has_long_name_base = Inl ConstevalAssert \<and>
   save [] (OutputArchive_on XML []) HasLongNameBase has_long_name_base = Inl ConstevalAssert"
proof -
  have 1: "nonstatic_data_members_of Derived = []" "bases_of Derived = [Parent]"
    by (simp_all add: Derived_def)
  show ?thesis
    using ClassSingleton_ctor_Derived no_members_rejected(1) [OF 1(1)] Derived_instance
      ClassSingleton_ctor_HasDerivedBase HasDerivedBase_instance HasDerivedBase_rejected(1)
      ClassSingleton_ctor_HasLongNameBase HasLongNameBase_instance HasLongNameBase_rejected(1)
    by (simp add: 1 names_in_bounds_def valid_identifiers_def valid_identifier_def
          HasDerivedBase_def HasLongNameBase_def identifier_of_def
          MAX_CLASS_MEMBERS_def MAX_IDENTIFIER_LENGTH_def NUL_def)
qed

text \<open>
  C9. When two members of a saved instance hold a shared reference to the same
  target, the save registers the target under one identity and the stream holds
  exactly one first occurrence with that identity, so the target's contents are
  written once. After the load, the two members of the loaded instance hold the
  same address, the contents there are those of the saved target, and a value
  written through one member is read through the other.
\<close>

theorem shared_reference_identity:
  assumes "instance_of hS C inst" and "instance_of hL C target"
    and "ordinals_in_range (helper_calls C 0)" and "descriptors_valid (helper_calls C 0)"
    and i: "i < length (nonstatic_data_members_of C)" and j: "j < length (nonstatic_data_members_of C)"
    and vi: "member_values inst ! i = SharedV (Some a)"
    and vj: "member_values inst ! j = SharedV (Some a)"
  shows "\<exists>ar' ident inst' iar' hL' b.
     save hS (OutputArchive_on bk []) C inst = Inr ar' \<and>
     map_of (out_shared ar') a = Some ident \<and>
     first_occurrences ident (out_stream ar') = 1 \<and>
     load (InputArchive_on bk (out_stream ar' @ rest)) hL C target = Inr (inst', iar', hL') \<and>
     member_values inst' ! i = SharedV (Some b) \<and> member_values inst' ! j = SharedV (Some b) \<and>
     b < length hL' \<and> hL' ! b = hS ! a \<and>
     (\<forall>x. deref (assign_through hL' (member_values inst' ! i) x) (member_values inst' ! j) = Some x)"
proof -
  from round_trip_general [OF assms(1-4), of bk rest] obtain ar' inst' iar' hL' where
    sv: "save hS (OutputArchive_on bk []) C inst = Inr ar'"
    and ld: "load (InputArchive_on bk (out_stream ar' @ rest)) hL C target = Inr (inst', iar', hL')"
    and sy: "synced hS ar' iar' hL' (out_stream ar' @ rest)"
    and r: "rel_obj (target_of ar' iar') inst inst'"
    by blast
  have len: "length (member_values inst) = length (nonstatic_data_members_of C)"
    using instance_ofD(2) [OF assms(1)] .
  from r have all: "list_all2 (rel_val (target_of ar' iar')) (member_values inst) (member_values inst')"
    by (simp add: rel_obj_sel [of _ inst])
  from list_all2_nthD [OF all, of i] i len vi
  have ri: "rel_val (target_of ar' iar') (SharedV (Some a)) (member_values inst' ! i)" by simp
  from list_all2_nthD [OF all, of j] j len vj
  have rj: "rel_val (target_of ar' iar') (SharedV (Some a)) (member_values inst' ! j)" by simp
  from ri obtain b where b: "target_of ar' iar' a = Some b"
    and fi: "member_values inst' ! i = SharedV (Some b)"
    by (auto split: option.splits)
  from rj b have fj: "member_values inst' ! j = SharedV (Some b)" by simp
  from b obtain ident where reg: "map_of (out_shared ar') a = Some ident"
    and lb: "map_of (in_shared iar') ident = Some b"
    by (auto simp: target_of_def split: option.splits)
  from sy reg obtain b' where "map_of (in_shared iar') ident = Some b'"
    "b' < length hL'" "hL' ! b' = hS ! a"
    unfolding synced_def by blast
  with lb have hb: "b < length hL'" "hL' ! b = hS ! a" by simp_all
  from save_counted [OF sv counted_start] have cnt: "counted ar'" .
  from cnt reg have "1 \<le> ident \<and> ident \<le> length (out_shared ar')"
    unfolding counted_def by blast
  moreover from cnt have "first_occurrences ident (out_stream ar')
      = (if 1 \<le> ident \<and> ident \<le> length (out_shared ar') then 1 else 0)"
    unfolding counted_def by blast
  ultimately have once: "first_occurrences ident (out_stream ar') = 1" by simp
  have "deref (assign_through hL' (member_values inst' ! i) x) (member_values inst' ! j) = Some x" for x
    using hb by (simp add: fi fj deref_def assign_through_def)
  with sv reg once ld fi fj hb show ?thesis by blast
qed

theorem shared_reference_identity_witness:
  "instance_of [StringV ''womble''] Wibble wibble \<and> instance_of [] Wibble wibble_copy \<and>
   ordinals_in_range (helper_calls Wibble 0) \<and> descriptors_valid (helper_calls Wibble 0) \<and>
   member_values wibble ! 0 = SharedV (Some 0) \<and> member_values wibble ! 1 = SharedV (Some 0) \<and>
   (\<exists>ar' ident inst' iar' hL' b.
     save [StringV ''womble''] (OutputArchive_on JSON []) Wibble wibble = Inr ar' \<and>
     map_of (out_shared ar') 0 = Some ident \<and>
     first_occurrences ident (out_stream ar') = 1 \<and>
     load (InputArchive_on JSON (out_stream ar' @ [])) [] Wibble wibble_copy = Inr (inst', iar', hL') \<and>
     member_values inst' ! 0 = SharedV (Some b) \<and> member_values inst' ! 1 = SharedV (Some b) \<and>
     b < length hL' \<and> hL' ! b = StringV ''womble'')"
proof -
  have f: "member_values wibble ! 0 = SharedV (Some 0)" "member_values wibble ! 1 = SharedV (Some 0)"
    "0 < length (nonstatic_data_members_of Wibble)" "1 < length (nonstatic_data_members_of Wibble)"
    by (simp_all add: wibble_def Wibble_def)
  from shared_reference_identity [OF Wibble_ok f(3,4) f(1,2), of JSON "[]"]
  obtain ar' ident inst' iar' hL' b where
     "save [StringV ''womble''] (OutputArchive_on JSON []) Wibble wibble = Inr ar'"
     "map_of (out_shared ar') 0 = Some ident"
     "first_occurrences ident (out_stream ar') = 1"
     "load (InputArchive_on JSON (out_stream ar' @ [])) [] Wibble wibble_copy = Inr (inst', iar', hL')"
     "member_values inst' ! 0 = SharedV (Some b)" "member_values inst' ! 1 = SharedV (Some b)"
     "b < length hL'" "hL' ! b = [StringV ''womble''] ! 0"
    by blast
  then show ?thesis using Wibble_ok f(1,2) by auto
qed

section \<open>Loading does not read the names\<close>

lemma and_renamed_simps [simp]:
  "and_renamed f (Inl e) = Inl e"
  "and_renamed f (Inr (x, ar, h)) = Inr (x, renamed f ar, h)"
  by (simp_all add: and_renamed_def)

lemma renamed_simps [simp]:
  "in_backend (renamed f ar) = in_backend ar"
  "in_shared (renamed f ar) = in_shared ar"
  "in_stream (renamed f ar) = map (rename f) (in_stream ar)"
  by (simp_all add: renamed_def)

lemma renamed_in_shared:
  "renamed f (ar\<lparr>in_shared := x\<rparr>) = (renamed f ar)\<lparr>in_shared := x\<rparr>"
  by (simp add: renamed_def)

lemma next_token_renamed:
  "next_token (renamed f ar) = and_then (next_token ar) (\<lambda>(t, ar1). Inr (rename f t, renamed f ar1))"
  by (cases "in_stream ar") (simp_all add: next_token_def renamed_def)

lemma load_scalar_renamed:
  "load_scalar (renamed f ar) t = and_then (load_scalar ar t) (\<lambda>(s, ar1). Inr (s, renamed f ar1))"
proof (cases "next_token ar")
  case (Inl e)
  then show ?thesis by (simp add: load_scalar_def next_token_renamed)
next
  case (Inr x)
  obtain tok ar1 where x: "x = (tok, ar1)" by (cases x)
  show ?thesis using Inr x by (cases tok) (simp_all add: load_scalar_def next_token_renamed)
qed

lemma load_shared_ptr_renamed:
  "load_shared_ptr (renamed f ar) h t = and_renamed f (load_shared_ptr ar h t)"
proof (cases "next_token ar")
  case (Inl e)
  then show ?thesis by (simp add: load_shared_ptr_def next_token_renamed)
next
  case (Inr x)
  obtain tok ar1 where x: "x = (tok, ar1)" by (cases x)
  show ?thesis using Inr x
    by (cases tok) (auto simp: load_shared_ptr_def next_token_renamed renamed_in_shared split: option.splits)
qed

lemma startNode_in_renamed:
  "startNode_in (renamed f ar) = and_then (startNode_in ar) (\<lambda>ar1. Inr (renamed f ar1))"
proof (cases "next_token ar")
  case (Inl e)
  then show ?thesis by (simp add: startNode_in_def next_token_renamed)
next
  case (Inr x)
  obtain tok ar1 where x: "x = (tok, ar1)" by (cases x)
  show ?thesis using Inr x by (cases tok) (simp_all add: startNode_in_def next_token_renamed)
qed

lemma finishNode_in_renamed:
  "finishNode_in (renamed f ar) = and_then (finishNode_in ar) (\<lambda>ar1. Inr (renamed f ar1))"
proof (cases "next_token ar")
  case (Inl e)
  then show ?thesis by (simp add: finishNode_in_def next_token_renamed)
next
  case (Inr x)
  obtain tok ar1 where x: "x = (tok, ar1)" by (cases x)
  show ?thesis using Inr x by (cases tok) (simp_all add: finishNode_in_def next_token_renamed)
qed

lemma load_renamed:
  "loadHelper (renamed f ar) h C n index inst = and_renamed f (loadHelper ar h C n index inst)"
  "loadParents (renamed f ar) h C index inst = and_renamed f (loadParents ar h C index inst)"
  "load (renamed f ar) h C inst = and_renamed f (load ar h C inst)"
  "InputArchive_call (renamed f ar) h T v = and_renamed f (InputArchive_call ar h T v)"
proof (induction ar h C n index inst and ar h C index inst and ar h C inst and ar h T v
       rule: loadHelper_loadParents_load_InputArchive_call.induct)
  case (1 ar h C memberCount' index inst)
  note unf = loadHelper.simps [of _ h C memberCount' index inst]
  show ?case
  proof (cases "ClassSingleton_ctor C")
    case (Inl e)
    then show ?thesis by (simp add: unf)
  next
    case (Inr s)
    show ?thesis
    proof (cases "0 < memberCount s \<and> index < memberCount s")
      case False
      then show ?thesis using Inr by (auto simp: unf)
    next
      case True
      then have g: "\<not> \<not> 0 < memberCount s" "\<not> \<not> index < memberCount s" by simp_all
      let ?p = "\<lambda>ar. if index = 0 \<and> baseCount s > 0 then loadParents ar h C 0 inst else Inr (inst, ar, h)"
      have p: "?p (renamed f ar) = and_renamed f (?p ar)"
        using "1.IH"(1) [OF Inr g] by simp
      show ?thesis
      proof (cases "?p ar")
        case (Inl e)
        with p have "?p (renamed f ar) = Inl e" by simp
        with Inl Inr True show ?thesis by (simp add: unf)
      next
        case r1: (Inr x)
        obtain inst1 ar1 h1 where x: "x = (inst1, ar1, h1)" by (cases x)
        note r1 = r1 [unfolded x]
        from p r1 have r1': "?p (renamed f ar) = Inr (inst1, renamed f ar1, h1)" by simp
        show ?thesis
        proof (cases "index < length (member_values inst1)")
          case False
          with Inr True r1 r1' show ?thesis by (simp add: unf)
        next
          case t: True
          then have t': "\<not> \<not> index < length (member_values inst1)" by simp
          let ?c = "\<lambda>ar. InputArchive_call ar h1 (type_of (member_info C index)) (member_ref inst1 index)"
          have c: "?c (renamed f ar1) = and_renamed f (?c ar1)"
            using "1.IH"(2) [OF Inr g r1 refl refl t'] by simp
          show ?thesis
          proof (cases "?c ar1")
            case (Inl e)
            with c have "?c (renamed f ar1) = Inl e" by simp
            with Inl Inr True r1 r1' t show ?thesis by (simp add: unf)
          next
            case r2: (Inr y)
            obtain v ar2 h2 where y: "y = (v, ar2, h2)" by (cases y)
            note r2 = r2 [unfolded y]
            from c r2 have r2': "?c (renamed f ar1) = Inr (v, renamed f ar2, h2)" by simp
            show ?thesis
            proof (cases "index + 1 < memberCount s")
              case False
              with Inr True r1 r1' t r2 r2' show ?thesis by (simp add: unf)
            next
              case n: True
              from "1.IH"(3) [OF Inr g r1 refl refl t' r2 refl refl n]
              have "loadHelper (renamed f ar2) h2 C (memberCount s) (index + 1) (member_ref_assign inst1 index v)
                  = and_renamed f (loadHelper ar2 h2 C (memberCount s) (index + 1) (member_ref_assign inst1 index v))" .
              with Inr True r1 r1' t r2 r2' n show ?thesis by (simp add: unf)
            qed
          qed
        qed
      qed
    qed
  qed
next
  case (2 ar h C index inst)
  note unf = loadParents.simps [of _ h C index inst]
  show ?case
  proof (cases "ClassSingleton_ctor C")
    case (Inl e)
    then show ?thesis by (simp add: unf)
  next
    case (Inr s)
    show ?thesis
    proof (cases "index < length (bases s)")
      case False
      then show ?thesis using Inr by (simp add: unf)
    next
      case k: True
      then have k': "\<not> \<not> index < length (bases s)" by simp
      show ?thesis
      proof (cases "ClassSingleton_ctor (bases s ! index)")
        case (Inl e)
        then show ?thesis using Inr k by (simp add: unf)
      next
        case pI: (Inr p)
        show ?thesis
        proof (cases "index < length (base_subobjects inst)")
          case False
          then show ?thesis using Inr k pI by (simp add: unf)
        next
          case t: True
          then have t': "\<not> \<not> index < length (base_subobjects inst)" by simp
          let ?c = "\<lambda>ar. loadHelper ar h (bases s ! index) (memberCount p) 0 (static_cast_base inst index)"
          have c: "?c (renamed f ar) = and_renamed f (?c ar)"
            using "2.IH"(1) [OF Inr k' pI t'] .
          show ?thesis
          proof (cases "?c ar")
            case (Inl e)
            with c have "?c (renamed f ar) = Inl e" by simp
            with Inl Inr k pI t show ?thesis by (simp add: unf)
          next
            case r: (Inr y)
            obtain b ar1 h1 where y: "y = (b, ar1, h1)" by (cases y)
            note r = r [unfolded y]
            from c r have r': "?c (renamed f ar) = Inr (b, renamed f ar1, h1)" by simp
            show ?thesis
            proof (cases "index + 1 < baseCount s")
              case False
              with Inr k pI t r r' show ?thesis by (simp add: unf)
            next
              case n: True
              from "2.IH"(2) [OF Inr k' pI t' r refl refl n]
              have "loadParents (renamed f ar1) h1 C (index + 1) (static_cast_base_assign inst index b)
                  = and_renamed f (loadParents ar1 h1 C (index + 1) (static_cast_base_assign inst index b))" .
              with Inr k pI t r r' n show ?thesis by (simp add: unf)
            qed
          qed
        qed
      qed
    qed
  qed
next
  case (3 ar h C inst)
  show ?case
  proof (cases "ClassSingleton_ctor C")
    case (Inl e)
    then show ?thesis by (simp add: load.simps)
  next
    case (Inr s)
    from "3.IH" [OF Inr] Inr show ?thesis by (simp add: load.simps)
  qed
next
  case (4 ar h t v)
  show ?case
    by (cases "load_scalar ar t") (auto simp: load_scalar_renamed)
next
  case (5 ar h t v)
  show ?case
    by (cases "load_shared_ptr ar h t") (auto simp: load_shared_ptr_renamed)
next
  case (6 ar h C v)
  show ?case
  proof (cases v)
    case (ObjV inst)
    show ?thesis
    proof (cases "startNode_in ar")
      case (Inl e)
      then show ?thesis using ObjV by (simp add: startNode_in_renamed)
    next
      case r1: (Inr ar1)
      have l: "load (renamed f ar1) h C inst = and_renamed f (load ar1 h C inst)"
        using "6.IH" [OF ObjV r1] .
      show ?thesis
      proof (cases "load ar1 h C inst")
        case (Inl e)
        with l r1 ObjV show ?thesis by (simp add: startNode_in_renamed)
      next
        case r2: (Inr y)
        obtain inst1 ar2 h2 where y: "y = (inst1, ar2, h2)" by (cases y)
        note r2 = r2 [unfolded y]
        show ?thesis
          using l r1 r2 ObjV
          by (cases "finishNode_in ar2") (simp_all add: startNode_in_renamed finishNode_in_renamed)
      qed
    qed
  qed simp_all
qed

lemma for_each_cong:
  "(\<And>i x. i \<in> set xs \<Longrightarrow> step i x = step' i x) \<Longrightarrow> for_each xs step x = for_each xs step' x"
proof (induction xs arbitrary: x)
  case Nil
  show ?case by simp
next
  case (Cons i xs)
  have "step i x = step' i x" using Cons.prems by simp
  moreover have "for_each xs step y = for_each xs step' y" for y
    using Cons.IH Cons.prems by simp
  ultimately show ?case by (simp cong: and_then_cong)
qed

lemma ClassSingleton_ctor_names:
  assumes "ClassSingleton_ctor C = Inr s" and "valid_identifiers C"
  shows "s = \<lparr> memberNamesStrings = map identifier_of (nonstatic_data_members_of C),
           memberCount = length (nonstatic_data_members_of C),
           baseCount = length (bases_of C), bases = bases_of C \<rparr>"
proof -
  have "names_in_bounds C"
  proof (rule ccontr)
    assume "\<not> names_in_bounds C"
    then have "ClassSingleton_ctor C = Inl ConstevalAssert"
      by (simp add: ClassSingleton_ctor_fails)
    with assms(1) show False by simp
  qed
  from ClassSingleton_ctor_ok [OF this assms(2)] assms(1) show ?thesis by simp
qed

lemma save_field_step_name:
  assumes "ClassSingleton_ctor C = Inr s" and "valid_identifiers C" and "i < memberCount s"
  shows "save_field_step h C s inst i ar =
     OutputArchive_call h ar (Some (identifier_of (member_info C i))) (type_of (member_info C i))
       (member_ref_const inst i)"
  using assms(3) unfolding ClassSingleton_ctor_names [OF assms(1,2)]
  by (simp add: save_field_step_def memberAtIndex_def member_info_def)

section \<open>What a save writes, name by name\<close>

lemma depth_after_append: "depth_after d (xs @ ys) = depth_after (depth_after d xs) ys"
  by (induction d xs rule: depth_after.induct) simp_all

lemma names_at_append: "names_at d (xs @ ys) = names_at d xs @ names_at (depth_after d xs) ys"
  by (induction d xs rule: names_at.induct) simp_all

lemma level_Nil [simp]: "level []"
  by (simp add: level_def)

lemma level_append: "level p \<Longrightarrow> level q \<Longrightarrow> level (p @ q)"
  by (simp add: level_def depth_after_append names_at_append)

lemma names_at_level_append: "level p \<Longrightarrow> names_at 0 (p @ q) = names_at 0 p @ names_at 0 q"
  by (simp add: level_def names_at_append)

lemma level_node: "level p \<Longrightarrow> level (StartNode name # p @ [FinishNode])"
  by (simp add: level_def depth_after_append names_at_append)

lemma names_at_node: "level p \<Longrightarrow> names_at 0 (StartNode name # p @ [FinishNode]) = [name]"
  by (simp add: level_def depth_after_append names_at_append)

lemma level_single:
  "level [Value name s]" "level [NullPtr name]" "level [NewPtr name i s]" "level [BackRef name i]"
  by (simp_all add: level_def)

lemma save_scalar_names:
  assumes "save_scalar ar name t s = Inr ar'" and "out_backend ar \<noteq> Binary"
  shows "\<exists>p. out_stream ar' = out_stream ar @ p \<and> level p \<and> names_at 0 p = [name]"
  using assms by (auto simp: save_scalar_def emit_def nvp_name_def level_single split: if_splits)

lemma save_shared_ptr_names:
  assumes "save_shared_ptr h ar name t p = Inr ar'" and "out_backend ar \<noteq> Binary"
  shows "\<exists>p. out_stream ar' = out_stream ar @ p \<and> level p \<and> names_at 0 p = [name]"
  using assms
  by (auto simp: save_shared_ptr_def emit_def nvp_name_def level_single split: if_splits option.splits)

lemma extends_backend: "extends ar ar' \<Longrightarrow> out_backend ar' = out_backend ar"
  by (simp add: extends_def)

lemma save_names:
  "saveHelper h ar C n index inst = Inr ar' \<Longrightarrow> out_backend ar \<noteq> Binary \<Longrightarrow>
   descriptors_valid (helper_calls C index) \<Longrightarrow>
     \<exists>p. out_stream ar' = out_stream ar @ p \<and> level p \<and>
       names_at 0 p = map Some ((if index = 0 then concat (map flat_names (bases_of C)) else []) @
                                 map identifier_of (drop index (nonstatic_data_members_of C)))"
  "saveParents h ar C index inst = Inr ar' \<Longrightarrow> out_backend ar \<noteq> Binary \<Longrightarrow>
   descriptors_valid (parents_calls C index) \<Longrightarrow>
     \<exists>p. out_stream ar' = out_stream ar @ p \<and> level p \<and>
       names_at 0 p = map Some (concat (map flat_names (drop index (bases_of C))))"
  "save h ar C inst = Inr ar' \<Longrightarrow> out_backend ar \<noteq> Binary \<Longrightarrow>
   descriptors_valid (helper_calls C 0) \<Longrightarrow>
     \<exists>p. out_stream ar' = out_stream ar @ p \<and> level p \<and> names_at 0 p = map Some (flat_names C)"
  "OutputArchive_call h ar name T v = Inr ar' \<Longrightarrow> out_backend ar \<noteq> Binary \<Longrightarrow>
   descriptors_valid (archive_calls T) \<Longrightarrow>
     \<exists>p. out_stream ar' = out_stream ar @ p \<and> level p \<and> names_at 0 p = [name]"
proof (induction h ar C n index inst and h ar C index inst and h ar C inst and h ar name T v
       arbitrary: ar' and ar' and ar' and ar'
       rule: saveHelper_saveParents_save_OutputArchive_call.induct)
  case (1 h ar C memberCount' index inst)
  let ?ms = "nonstatic_data_members_of C"
  note nb = "1.prems"(2)
  from "1.prems"(1) obtain s ar1 name ar2 where
    s: "ClassSingleton_ctor C = Inr s" and g: "0 < memberCount s" "index < memberCount s"
    and p: "(if index = 0 \<and> 0 < baseCount s then saveParents h ar C 0 inst else Inr ar) = Inr ar1"
    and t: "index < length (member_values inst)"
    and nm: "memberAtIndex s index = Inr name"
    and c: "OutputArchive_call h ar1 (Some name) (type_of (member_info C index))
              (member_ref_const inst index) = Inr ar2"
    and r: "(if index + 1 < memberCount s
             then saveHelper h ar2 C (memberCount s) (index + 1) inst else Inr ar2) = Inr ar'"
    by (auto simp: saveHelper.simps [of h ar C memberCount' index] and_then_eq_Inr split: if_splits)
  note cnt = ClassSingleton_ctor_counts [OF s]
  from g cnt have idx: "index < length ?ms" by simp
  from "1.prems"(3) idx have vi: "valid_identifiers C"
    by (auto simp: helper_calls.simps [of C index])
  have ne: "0 < length ?ms" "?ms \<noteq> []" using idx by auto
  from "1.prems"(3) idx ne cnt have
    calls: "index = 0 \<and> 0 < baseCount s \<longrightarrow> descriptors_valid (parents_calls C 0)"
      "descriptors_valid (archive_calls (type_of (member_info C index)))"
      "index + 1 < memberCount s \<longrightarrow> descriptors_valid (helper_calls C (index + 1))"
    by (auto simp: helper_calls.simps [of C index])
  have name: "name = identifier_of (?ms ! index)"
    using nm idx unfolding ClassSingleton_ctor_names [OF s vi] by (simp add: memberAtIndex_def)
  have "\<exists>pb. out_stream ar1 = out_stream ar @ pb \<and> level pb \<and> out_backend ar1 \<noteq> Binary \<and>
          names_at 0 pb = map Some (if index = 0 then concat (map flat_names (bases_of C)) else [])"
  proof (cases "index = 0 \<and> 0 < baseCount s")
    case True
    with p have sp: "saveParents h ar C 0 inst = Inr ar1" by simp
    from "1.IH"(1) [OF s _ _ True sp nb] g calls(1) True
    obtain pb where "out_stream ar1 = out_stream ar @ pb" "level pb"
      "names_at 0 pb = map Some (concat (map flat_names (drop 0 (bases_of C))))" by auto
    moreover from save_extends(2) [OF sp] nb have "out_backend ar1 \<noteq> Binary"
      by (simp add: extends_def)
    ultimately show ?thesis using True by auto
  next
    case False
    with p have "ar1 = ar" by (auto split: if_splits)
    moreover from False cnt have "index = 0 \<longrightarrow> bases_of C = []" by auto
    ultimately show ?thesis using nb by auto
  qed
  then obtain pb where pb: "out_stream ar1 = out_stream ar @ pb" "level pb"
    "names_at 0 pb = map Some (if index = 0 then concat (map flat_names (bases_of C)) else [])"
    and nb1: "out_backend ar1 \<noteq> Binary" by blast
  from "1.IH"(2) [OF s _ _ p _ nm c nb1 calls(2)] g t
  obtain pm where pm: "out_stream ar2 = out_stream ar1 @ pm" "level pm" "names_at 0 pm = [Some name]"
    by auto
  from save_extends(4) [OF c] nb1 have nb2: "out_backend ar2 \<noteq> Binary" by (simp add: extends_def)
  have "\<exists>pr. out_stream ar' = out_stream ar2 @ pr \<and> level pr \<and>
          names_at 0 pr = map Some (map identifier_of (drop (Suc index) ?ms))"
  proof (cases "index + 1 < memberCount s")
    case True
    with r have sr: "saveHelper h ar2 C (memberCount s) (index + 1) inst = Inr ar'" by simp
    from "1.IH"(3) [OF s _ _ p _ nm c True sr nb2] g t calls(3) True
    show ?thesis by auto
  next
    case False
    with r have "ar' = ar2" by simp
    moreover from False cnt have "drop (Suc index) ?ms = []" by simp
    ultimately show ?thesis by simp
  qed
  then obtain pr where pr: "out_stream ar' = out_stream ar2 @ pr" "level pr"
    "names_at 0 pr = map Some (map identifier_of (drop (Suc index) ?ms))" by blast
  have d: "drop index ?ms = ?ms ! index # drop (Suc index) ?ms"
    using idx by (simp add: Cons_nth_drop_Suc)
  have "out_stream ar' = out_stream ar @ (pb @ pm @ pr)" using pb(1) pm(1) pr(1) by simp
  moreover have "level (pb @ pm @ pr)" using pb(2) pm(2) pr(2) by (simp add: level_append)
  moreover have "names_at 0 (pb @ pm @ pr)
      = map Some ((if index = 0 then concat (map flat_names (bases_of C)) else []) @
                    map identifier_of (drop index ?ms))"
    using pb pm pr by (simp add: names_at_level_append d name)
  ultimately show ?case by blast
next
  case (2 h ar C index inst)
  note nb = "2.prems"(2)
  from "2.prems"(1) obtain s p ar1 where
    s: "ClassSingleton_ctor C = Inr s" and k: "index < length (bases s)"
    and pI: "ClassSingleton_ctor (bases s ! index) = Inr p"
    and t: "index < length (base_subobjects inst)"
    and c: "saveHelper h ar (bases s ! index) (memberCount p) 0 (static_cast_base inst index) = Inr ar1"
    and r: "(if index + 1 < baseCount s then saveParents h ar1 C (index + 1) inst else Inr ar1) = Inr ar'"
    by (auto simp: saveParents.simps [of h ar C index] and_then_eq_Inr split: if_splits)
  note cnt = ClassSingleton_ctor_counts [OF s]
  from k cnt have idx: "index < length (bases_of C)" by simp
  have P: "bases s ! index = bases_of C ! index" using cnt by simp
  from "2.prems"(3) idx cnt have
    calls: "descriptors_valid (helper_calls (bases s ! index) 0)"
      "index + 1 < baseCount s \<longrightarrow> descriptors_valid (parents_calls C (index + 1))"
    by (auto simp: parents_calls.simps [of C index])
  from "2.IH"(1) [OF s _ pI _ c nb calls(1)] k t
  obtain pm where pm: "out_stream ar1 = out_stream ar @ pm" "level pm"
    "names_at 0 pm = map Some (concat (map flat_names (bases_of (bases s ! index))) @
        map identifier_of (nonstatic_data_members_of (bases s ! index)))"
    by auto
  from pm(3) have pm3: "names_at 0 pm = map Some (flat_names (bases_of C ! index))"
    by (simp add: flat_names.simps [of "bases_of C ! index"] P)
  from save_extends(1) [OF c] nb have nb1: "out_backend ar1 \<noteq> Binary" by (simp add: extends_def)
  have "\<exists>pr. out_stream ar' = out_stream ar1 @ pr \<and> level pr \<and>
          names_at 0 pr = map Some (concat (map flat_names (drop (Suc index) (bases_of C))))"
  proof (cases "index + 1 < baseCount s")
    case True
    with r have sr: "saveParents h ar1 C (index + 1) inst = Inr ar'" by simp
    from "2.IH"(2) [OF s _ pI _ c True sr nb1] k t calls(2) True
    show ?thesis by auto
  next
    case False
    with r have "ar' = ar1" by simp
    moreover from False cnt have "drop (Suc index) (bases_of C) = []" by simp
    ultimately show ?thesis by simp
  qed
  then obtain pr where pr: "out_stream ar' = out_stream ar1 @ pr" "level pr"
    "names_at 0 pr = map Some (concat (map flat_names (drop (Suc index) (bases_of C))))" by blast
  have d: "drop index (bases_of C) = bases_of C ! index # drop (Suc index) (bases_of C)"
    using idx by (simp add: Cons_nth_drop_Suc)
  have "out_stream ar' = out_stream ar @ (pm @ pr)" using pm(1) pr(1) by simp
  moreover have "level (pm @ pr)" using pm(2) pr(2) by (simp add: level_append)
  moreover have "names_at 0 (pm @ pr) = map Some (concat (map flat_names (drop index (bases_of C))))"
    using pm(2) pm3 pr by (simp add: names_at_level_append d)
  ultimately show ?case by blast
next
  case (3 h ar C inst)
  from "3.prems"(1) obtain s where s: "ClassSingleton_ctor C = Inr s"
    and c: "saveHelper h ar C (memberCount s) 0 inst = Inr ar'"
    by (auto simp: save.simps and_then_eq_Inr)
  from "3.IH" [OF s c "3.prems"(2,3)] show ?case
    by (simp add: flat_names.simps [of C])
next
  case (4 h ar name T s)
  then show ?case by (cases T) (auto dest: save_scalar_names)
next
  case (5 h ar name T p)
  then show ?case by (cases T) (auto dest: save_shared_ptr_names)
next
  case (6 h ar name T inst)
  show ?case
  proof (cases T)
    case (ClassT C)
    from "6.prems"(1) ClassT obtain ar1 where
      sv: "save h (startNode ar name) C inst = Inr ar1" and ar': "ar' = finishNode ar1"
      by (auto simp: and_then_eq_Inr)
    from "6.prems"(2) have st: "out_backend (startNode ar name) \<noteq> Binary"
      "out_stream (startNode ar name) = out_stream ar @ [StartNode name]"
      by (simp_all add: startNode_def emit_def nvp_name_def)
    from "6.IH" [OF ClassT sv st(1)] "6.prems"(3) ClassT
    obtain p where p: "out_stream ar1 = out_stream (startNode ar name) @ p" "level p" by auto
    from save_extends(3) [OF sv] st(1) have "out_backend ar1 \<noteq> Binary" by (simp add: extends_def)
    then have "out_stream ar' = out_stream ar1 @ [FinishNode]"
      by (simp add: ar' finishNode_def emit_def)
    with p(1) st(2) have "out_stream ar' = out_stream ar @ (StartNode name # p @ [FinishNode])" by simp
    with level_node [OF p(2)] names_at_node [OF p(2)] show ?thesis by blast
  qed (use "6.prems" in auto)
qed

section \<open>Save and load as two loops that succeed\<close>

lemma for_each_extends:
  "(\<And>i x y. step i x = Inr y \<Longrightarrow> extends x y) \<Longrightarrow> for_each ks step x = Inr y \<Longrightarrow> extends x y"
proof (induction ks arbitrary: x)
  case Nil
  then show ?case by simp
next
  case (Cons k ks)
  from Cons.prems(2) obtain z where 1: "step k x = Inr z" and 2: "for_each ks step z = Inr y"
    by (auto simp: and_then_eq_Inr)
  have "extends z y" by (rule Cons.IH [OF _ 2]) (rule Cons.prems(1))
  with Cons.prems(1) [OF 1] show ?case by (rule extends_trans)
qed

lemma extends_text: "extends ar ar' \<Longrightarrow> \<exists>p. out_stream ar' = out_stream ar @ p"
  by (auto simp: extends_def prefix_def)

lemma save_two_loops:
  assumes iI: "instance_of h C inst"
    and rng: "ordinals_in_range (helper_calls C 0)" and dv: "descriptors_valid (helper_calls C 0)"
  shows "\<exists>s ar1 ar' pb pf.
     ClassSingleton_ctor C = Inr s \<and> 0 < memberCount s \<and>
     length (base_subobjects inst) = baseCount s \<and> length (member_values inst) = memberCount s \<and>
     for_each [0..<baseCount s] (save_base_step h C inst) ar = Inr ar1 \<and>
     for_each [0..<memberCount s] (save_field_step h C s inst) ar1 = Inr ar' \<and>
     saveHelper h ar C n 0 inst = Inr ar' \<and> save h ar C inst = Inr ar' \<and>
     out_stream ar1 = out_stream ar @ pb \<and> out_stream ar' = out_stream ar1 @ pf \<and>
     (out_backend ar \<noteq> Binary \<longrightarrow>
        names_at 0 pb = map Some (concat (map flat_names (bases_of C))) \<and>
        names_at 0 pf = map Some (map identifier_of (nonstatic_data_members_of C)) \<and>
        names_at 0 (pb @ pf) = map Some (flat_names C))"
proof -
  let ?ms = "nonstatic_data_members_of C"
  from dv have nb: "names_in_bounds C" and vi: "valid_identifiers C"
    by (auto simp: helper_calls.simps [of C 0])
  from rng have ne: "0 < length ?ms" by (simp add: helper_calls.simps [of C 0])
  define s where "s = \<lparr> memberNamesStrings = map identifier_of ?ms,
           memberCount = length ?ms, baseCount = length (bases_of C), bases = bases_of C \<rparr>"
  have s: "ClassSingleton_ctor C = Inr s" using ClassSingleton_ctor_ok [OF nb vi] by (simp add: s_def)
  have mc: "0 < memberCount s" using ne by (simp add: s_def)
  note iD = instance_ofD [OF iI]
  have lenb: "length (base_subobjects inst) = baseCount s" using iD(1) by (simp add: s_def)
  have lenm: "length (member_values inst) = memberCount s" using iD(2) by (simp add: s_def)
  from save_succeeds(1) [OF iI rng dv] obtain ar' where
    sv: "saveHelper h ar C n 0 inst = Inr ar'" by blast
  have sv': "save h ar C inst = Inr ar'"
    using sv s by (simp add: save.simps saveHelper_template_arg [of h ar C "memberCount s" 0 inst n])
  from sv save_loops [OF s mc lenb lenm, of h ar n] obtain ar1 where
    b: "for_each [0..<baseCount s] (save_base_step h C inst) ar = Inr ar1"
    and f: "for_each [0..<memberCount s] (save_field_step h C s inst) ar1 = Inr ar'"
    by (auto simp: and_then_eq_Inr)
  have eb: "extends ar ar1"
    by (rule for_each_extends [OF _ b]) (auto simp: save_base_step_def dest: save_extends(3))
  have ef: "extends ar1 ar'"
    by (rule for_each_extends [OF _ f])
       (auto simp: save_field_step_def and_then_eq_Inr dest: save_extends(4))
  from extends_text [OF eb] obtain pb where pb: "out_stream ar1 = out_stream ar @ pb" by blast
  from extends_text [OF ef] obtain pf where pf: "out_stream ar' = out_stream ar1 @ pf" by blast
  have names: "names_at 0 pb = map Some (concat (map flat_names (bases_of C))) \<and>
        names_at 0 pf = map Some (map identifier_of ?ms) \<and>
        names_at 0 (pb @ pf) = map Some (flat_names C)"
    if nbin: "out_backend ar \<noteq> Binary"
  proof -
    from save_names(1) [OF sv nbin dv] pb pf
    have whole: "names_at 0 (pb @ pf) = map Some (concat (map flat_names (bases_of C)) @ map identifier_of ?ms)"
      by auto
    have lb: "level pb \<and> names_at 0 pb = map Some (concat (map flat_names (bases_of C)))"
    proof (cases "0 < baseCount s")
      case True
      then have bl: "0 < length (bases_of C)" by (simp add: s_def)
      from b save_parents_loop [OF s lenb True, of h ar]
      have sp: "saveParents h ar C 0 inst = Inr ar1" by simp
      from dv ne bl have "descriptors_valid (parents_calls C 0)"
        by (auto simp: helper_calls.simps [of C 0] cong: if_cong)
      from save_names(2) [OF sp nbin this] pb show ?thesis by auto
    next
      case False
      with b have "ar1 = ar" by simp
      with pb False show ?thesis by (simp add: s_def)
    qed
    from whole lb have "names_at 0 pf = map Some (map identifier_of ?ms)"
      by (simp add: names_at_level_append)
    with whole lb show ?thesis by (simp add: flat_names.simps [of C])
  qed
  from s mc lenb lenm b f sv sv' pb pf names show ?thesis by blast
qed

lemma load_two_loops:
  assumes iI: "instance_of hS C inst" and iT: "instance_of hL C target"
    and rng: "ordinals_in_range (helper_calls C 0)" and dv: "descriptors_valid (helper_calls C 0)"
  shows "\<exists>s ar' mid inst' iar' hL'.
     ClassSingleton_ctor C = Inr s \<and>
     save hS (OutputArchive_on b []) C inst = Inr ar' \<and>
     for_each [0..<baseCount s] (load_base_step C)
       (target, InputArchive_on b (out_stream ar' @ rest), hL) = Inr mid \<and>
     for_each [0..<memberCount s] (load_field_step C) mid = Inr (inst', iar', hL') \<and>
     loadHelper (InputArchive_on b (out_stream ar' @ rest)) hL C n 0 target = Inr (inst', iar', hL') \<and>
     load (InputArchive_on b (out_stream ar' @ rest)) hL C target = Inr (inst', iar', hL') \<and>
     in_stream iar' = rest \<and> structurally_equal_obj hS inst hL' inst'"
proof -
  let ?ms = "nonstatic_data_members_of C"
  from dv have nb: "names_in_bounds C" and vi: "valid_identifiers C"
    by (auto simp: helper_calls.simps [of C 0])
  from rng have ne: "0 < length ?ms" by (simp add: helper_calls.simps [of C 0])
  define s where "s = \<lparr> memberNamesStrings = map identifier_of ?ms,
           memberCount = length ?ms, baseCount = length (bases_of C), bases = bases_of C \<rparr>"
  have s: "ClassSingleton_ctor C = Inr s" using ClassSingleton_ctor_ok [OF nb vi] by (simp add: s_def)
  have mc: "0 < memberCount s" using ne by (simp add: s_def)
  note iD = instance_ofD [OF iT]
  have lenb: "length (base_subobjects target) = baseCount s" using iD(1) by (simp add: s_def)
  have lenm: "length (member_values target) = memberCount s" using iD(2) by (simp add: s_def)
  from round_trip_general [OF iI iT rng dv, of b rest] obtain ar' inst' iar' hL' where
    sv: "save hS (OutputArchive_on b []) C inst = Inr ar'"
    and ld: "load (InputArchive_on b (out_stream ar' @ rest)) hL C target = Inr (inst', iar', hL')"
    and rest: "in_stream iar' = rest"
    and sy: "synced hS ar' iar' hL' (out_stream ar' @ rest)"
    and rel: "rel_obj (target_of ar' iar') inst inst'"
    by blast
  let ?iar = "InputArchive_on b (out_stream ar' @ rest)"
  from ld s have lh: "loadHelper ?iar hL C n 0 target = Inr (inst', iar', hL')"
    by (simp add: load.simps loadHelper_template_arg [of ?iar hL C "memberCount s" 0 target n])
  from lh load_loops [OF s mc lenb lenm, of ?iar hL n] obtain mid where
    "for_each [0..<baseCount s] (load_base_step C) (target, ?iar, hL) = Inr mid"
    "for_each [0..<memberCount s] (load_field_step C) mid = Inr (inst', iar', hL')"
    by (auto simp: and_then_eq_Inr)
  with s sv ld lh rest rel_structurally_equal(2) [OF rel sy] show ?thesis by blast
qed

section \<open>Bases before members\<close>

lemma child_round_trip:
  "to_json None (ClassT Child) \<lparr> frame_obj = ObjV child, frame_heap = [], frame_stream = [] \<rparr>
     = Inr \<lparr> frame_obj = ObjV child, frame_heap = [], frame_stream = child_json \<rparr>"
  "from_json (ClassT Child) \<lparr> frame_obj = ObjV child_copy, frame_heap = [], frame_stream = child_json \<rparr>
     = Inr \<lparr> frame_obj = ObjV child, frame_heap = [], frame_stream = [] \<rparr>"
  by (simp_all add: run_simps child_def child_copy_def child_json_def)

text \<open>
  C2. Take a class such that it and every class reached from it (its bases,
  their bases, the classes of its members) is within the bounds on its names and
  has at least one data member, an instance of it to save and one to load into.
  \<^verbatim>\<open>saveHelper\<close> at ordinal 0 succeeds, and it is the loop over the base
  indices \<open>0..<baseCount\<close>, from left to right, each base saved once through
  its own descriptor, followed by the loop over the member ordinals
  \<open>0..<memberCount\<close>. In a text backend the names written by the first loop
  are those of the bases, base by base, and the names of the class's own members
  follow them. At an ordinal above 0 \<^verbatim>\<open>saveHelper\<close> and \<^verbatim>\<open>loadHelper\<close> are
  the loop over the remaining members alone, with no base. \<^verbatim>\<open>loadHelper\<close> at
  ordinal 0, on the text that was saved, succeeds as the same two loops and gives
  an instance equal to the saved one. For \<open>Child\<close>, whose base \<open>Parent\<close> has
  \<open>foo\<close> and which itself has \<open>bar\<close>, the text lists \<open>foo\<close> before \<open>bar\<close>, and
  loading it gives both values back.
\<close>

theorem bases_before_fields:
  assumes "instance_of h C inst" and "instance_of hL C target"
    and "ordinals_in_range (helper_calls C 0)" and "descriptors_valid (helper_calls C 0)"
  shows "(\<exists>s ar1 ar' pb pf ars mid inst' iar' hL'.
           ClassSingleton_ctor C = Inr s \<and>
           for_each [0..<baseCount s] (save_base_step h C inst) ar = Inr ar1 \<and>
           for_each [0..<memberCount s] (save_field_step h C s inst) ar1 = Inr ar' \<and>
           saveHelper h ar C n 0 inst = Inr ar' \<and>
           out_stream ar1 = out_stream ar @ pb \<and> out_stream ar' = out_stream ar1 @ pf \<and>
           (out_backend ar \<noteq> Binary \<longrightarrow>
              names_at 0 pb = map Some (concat (map flat_names (bases_of C))) \<and>
              names_at 0 (pb @ pf) = map Some (flat_names C)) \<and>
           (\<forall>index. 0 < index \<and> index < memberCount s \<longrightarrow>
              saveHelper h ar C n index inst
                = for_each [index..<memberCount s] (save_field_step h C s inst) ar \<and>
              loadHelper iar hL C n index target
                = for_each [index..<memberCount s] (load_field_step C) (target, iar, hL)) \<and>
           save h (OutputArchive_on b []) C inst = Inr ars \<and>
           for_each [0..<baseCount s] (load_base_step C)
             (target, InputArchive_on b (out_stream ars @ rest), hL) = Inr mid \<and>
           for_each [0..<memberCount s] (load_field_step C) mid = Inr (inst', iar', hL') \<and>
           loadHelper (InputArchive_on b (out_stream ars @ rest)) hL C n 0 target
             = Inr (inst', iar', hL') \<and>
           in_stream iar' = rest \<and> structurally_equal_obj h inst hL' inst') \<and>
         to_json None (ClassT Child) \<lparr> frame_obj = ObjV child, frame_heap = [], frame_stream = [] \<rparr>
           = Inr \<lparr> frame_obj = ObjV child, frame_heap = [], frame_stream = child_json \<rparr> \<and>
         from_json (ClassT Child)
             \<lparr> frame_obj = ObjV child_copy, frame_heap = [], frame_stream = child_json \<rparr>
           = Inr \<lparr> frame_obj = ObjV child, frame_heap = [], frame_stream = [] \<rparr>"
proof -
  from save_two_loops [OF assms(1,3,4), of ar n] obtain s ar1 ar' pb pf where
    s: "ClassSingleton_ctor C = Inr s"
    and lenm: "length (member_values inst) = memberCount s"
    and sv: "for_each [0..<baseCount s] (save_base_step h C inst) ar = Inr ar1"
      "for_each [0..<memberCount s] (save_field_step h C s inst) ar1 = Inr ar'"
      "saveHelper h ar C n 0 inst = Inr ar'"
      "out_stream ar1 = out_stream ar @ pb" "out_stream ar' = out_stream ar1 @ pf"
    and names: "out_backend ar \<noteq> Binary \<longrightarrow>
        names_at 0 pb = map Some (concat (map flat_names (bases_of C))) \<and>
        names_at 0 (pb @ pf) = map Some (flat_names C)"
    by blast
  from load_two_loops [OF assms, of b rest n] s obtain ars mid inst' iar' hL' where
    ld: "save h (OutputArchive_on b []) C inst = Inr ars"
      "for_each [0..<baseCount s] (load_base_step C)
         (target, InputArchive_on b (out_stream ars @ rest), hL) = Inr mid"
      "for_each [0..<memberCount s] (load_field_step C) mid = Inr (inst', iar', hL')"
      "loadHelper (InputArchive_on b (out_stream ars @ rest)) hL C n 0 target = Inr (inst', iar', hL')"
      "in_stream iar' = rest" "structurally_equal_obj h inst hL' inst'"
    by auto
  have lent: "length (member_values target) = memberCount s"
    using instance_ofD(2) [OF assms(2)] ClassSingleton_ctor_counts [OF s] by simp
  have above: "\<forall>index. 0 < index \<and> index < memberCount s \<longrightarrow>
              saveHelper h ar C n index inst
                = for_each [index..<memberCount s] (save_field_step h C s inst) ar \<and>
              loadHelper iar hL C n index target
                = for_each [index..<memberCount s] (load_field_step C) (target, iar, hL)"
    using save_fields_loop [OF s lenm] load_fields_loop [OF s lent] by simp
  from s sv names above ld child_round_trip show ?thesis by blast
qed

theorem bases_before_fields_witness:
  "instance_of [] Child child \<and> instance_of [] Child child_copy \<and>
   ordinals_in_range (helper_calls Child 0) \<and> descriptors_valid (helper_calls Child 0) \<and>
   (\<exists>ar1 ar' pb pf ars mid inst' iar' hL'.
      for_each [0..<1] (save_base_step [] Child child) (JSONOutputArchive []) = Inr ar1 \<and>
      for_each [0..<1] (save_field_step [] Child
          \<lparr> memberNamesStrings = [''bar''], memberCount = 1, baseCount = 1, bases = [Parent] \<rparr> child) ar1
        = Inr ar' \<and>
      saveHelper [] (JSONOutputArchive []) Child 1 0 child = Inr ar' \<and>
      out_stream ar1 = pb \<and> out_stream ar' = pb @ pf \<and>
      names_at 0 pb = [Some ''foo''] \<and> names_at 0 (pb @ pf) = [Some ''foo'', Some ''bar''] \<and>
      save [] (OutputArchive_on XML []) Child child = Inr ars \<and>
      for_each [0..<1] (load_base_step Child)
        (child_copy, InputArchive_on XML (out_stream ars @ [FinishNode]), []) = Inr mid \<and>
      for_each [0..<1] (load_field_step Child) mid = Inr (inst', iar', hL') \<and>
      in_stream iar' = [FinishNode] \<and> structurally_equal_obj [] child hL' inst')"
proof -
  have 1: "instance_of [] Child child" "instance_of [] Child child_copy"
    by (simp_all add: child_def child_copy_def Child_instance)
  have 2: "flat_names Child = [''foo'', ''bar'']" "concat (map flat_names (bases_of Child)) = [''foo'']"
    by (simp_all add: flat_names.simps class_simps identifier_of_def)
  from bases_before_fields [OF 1 Child_calls, of "JSONOutputArchive []" 1 "JSONInputArchive []" XML "[FinishNode]"]
  obtain s ar1 ar' pb pf ars mid inst' iar' hL' where
    s: "ClassSingleton_ctor Child = Inr s"
    and r: "for_each [0..<baseCount s] (save_base_step [] Child child) (JSONOutputArchive []) = Inr ar1"
      "for_each [0..<memberCount s] (save_field_step [] Child s child) ar1 = Inr ar'"
      "saveHelper [] (JSONOutputArchive []) Child 1 0 child = Inr ar'"
      "out_stream ar1 = out_stream (JSONOutputArchive []) @ pb" "out_stream ar' = out_stream ar1 @ pf"
      "out_backend (JSONOutputArchive []) \<noteq> Binary \<longrightarrow>
         names_at 0 pb = map Some (concat (map flat_names (bases_of Child))) \<and>
         names_at 0 (pb @ pf) = map Some (flat_names Child)"
      "save [] (OutputArchive_on XML []) Child child = Inr ars"
      "for_each [0..<baseCount s] (load_base_step Child)
         (child_copy, InputArchive_on XML (out_stream ars @ [FinishNode]), []) = Inr mid"
      "for_each [0..<memberCount s] (load_field_step Child) mid = Inr (inst', iar', hL')"
      "in_stream iar' = [FinishNode]" "structurally_equal_obj [] child hL' inst'"
    by blast
  from s have s': "s = \<lparr> memberNamesStrings = [''bar''], memberCount = 1, baseCount = 1, bases = [Parent] \<rparr>"
    by (simp add: ClassSingleton_ctor_Child)
  from r(6) have n: "names_at 0 pb = [Some ''foo'']" "names_at 0 (pb @ pf) = [Some ''foo'', Some ''bar'']"
    by (simp_all add: 2 JSONOutputArchive_def)
  from r(4,5) have t: "out_stream ar1 = pb" "out_stream ar' = pb @ pf"
    by (simp_all add: JSONOutputArchive_def)
  from s' have bc: "baseCount s = 1" "memberCount s = 1" by simp_all
  note e = r(1) [unfolded bc] r(2) [unfolded bc, unfolded s'] r(3) r(7)
    r(8) [unfolded bc] r(9) [unfolded bc] r(10,11)
  from e n t have "\<exists>ar1 ar' pb pf ars mid inst' iar' hL'.
      for_each [0..<1] (save_base_step [] Child child) (JSONOutputArchive []) = Inr ar1 \<and>
      for_each [0..<1] (save_field_step [] Child
          \<lparr> memberNamesStrings = [''bar''], memberCount = 1, baseCount = 1, bases = [Parent] \<rparr> child) ar1
        = Inr ar' \<and>
      saveHelper [] (JSONOutputArchive []) Child 1 0 child = Inr ar' \<and>
      out_stream ar1 = pb \<and> out_stream ar' = pb @ pf \<and>
      names_at 0 pb = [Some ''foo''] \<and> names_at 0 (pb @ pf) = [Some ''foo'', Some ''bar''] \<and>
      save [] (OutputArchive_on XML []) Child child = Inr ars \<and>
      for_each [0..<1] (load_base_step Child)
        (child_copy, InputArchive_on XML (out_stream ars @ [FinishNode]), []) = Inr mid \<and>
      for_each [0..<1] (load_field_step Child) mid = Inr (inst', iar', hL') \<and>
      in_stream iar' = [FinishNode] \<and> structurally_equal_obj [] child hL' inst'"
    by blast
  with 1 Child_calls show ?thesis by blast
qed

text \<open>
  Three classes with a base whose bases are not saved. \<open>Derived\<close> has the
  base \<open>Parent\<close> and no member of its own. \<open>HasDerivedBase\<close> has a member of
  its own and the base \<open>Derived\<close>, which has none. \<open>HasLongNameBase\<close> has a
  member of its own and a base whose member name is too long. The descriptor of
  each builds with \<open>baseCount = 1\<close>, and each save and load is a build failure:
  no base is written, where saving the base \<open>Parent\<close> alone writes \<open>foo\<close>.
\<close>

theorem derived_bases_not_saved:
  "ClassSingleton_ctor Derived
     = Inr \<lparr> memberNamesStrings = [], memberCount = 0, baseCount = 1, bases = [Parent] \<rparr> \<and>
   save [] (JSONOutputArchive []) Derived derived = Inl StaticAssert \<and>
   saveHelper [] (JSONOutputArchive []) Derived 0 0 derived = Inl StaticAssert \<and>
   load (JSONInputArchive [Value (Some ''foo'') (IntV 22)]) [] Derived derived = Inl StaticAssert \<and>
   save_base_step [] Derived derived 0 (JSONOutputArchive [])
     = Inr \<lparr> out_backend = JSON, out_stream = [Value (Some ''foo'') (IntV 22)], out_shared = [] \<rparr> \<and>
   ClassSingleton_ctor HasDerivedBase
     = Inr \<lparr> memberNamesStrings = [''own''], memberCount = 1, baseCount = 1, bases = [Derived] \<rparr> \<and>
   instance_of [] HasDerivedBase has_derived_base \<and>
   save [] (JSONOutputArchive []) HasDerivedBase has_derived_base = Inl StaticAssert \<and>
   load (JSONInputArchive [Value (Some ''foo'') (IntV 22), Value (Some ''own'') (IntV 7)]) []
     HasDerivedBase has_derived_base = Inl StaticAssert \<and>
   ClassSingleton_ctor HasLongNameBase
     = Inr \<lparr> memberNamesStrings = [''own''], memberCount = 1, baseCount = 1, bases = [LongName] \<rparr> \<and>
   instance_of [] HasLongNameBase has_long_name_base \<and>
   save [] (JSONOutputArchive []) HasLongNameBase has_long_name_base = Inl ConstevalAssert \<and>
   load (JSONInputArchive [Value (Some ''own'') (IntV 7)]) [] HasLongNameBase has_long_name_base
     = Inl ConstevalAssert"
proof -
  have 1: "nonstatic_data_members_of Derived = []" "bases_of Derived = [Parent]"
    by (simp_all add: Derived_def)
  have "save_base_step [] Derived derived 0 (JSONOutputArchive [])
     = Inr \<lparr> out_backend = JSON, out_stream = [Value (Some ''foo'') (IntV 22)], out_shared = [] \<rparr>"
    by (simp add: save_base_step_def 1 run_simps derived_def)
  then show ?thesis
    using ClassSingleton_ctor_Derived no_members_rejected [OF 1(1)]
      ClassSingleton_ctor_HasDerivedBase HasDerivedBase_instance HasDerivedBase_rejected
      ClassSingleton_ctor_HasLongNameBase HasLongNameBase_instance HasLongNameBase_rejected
    by simp
qed

section \<open>Members in the order of declaration\<close>

text \<open>
  C3. Take a class such that it and every class reached from it is within the
  bounds on its names and has at least one data member, an instance of it to
  save and one to load into. \<^verbatim>\<open>save\<close> succeeds: after the bases it goes
  through the ordinals \<open>0..<memberCount\<close> from left to right and hands the
  member at each ordinal to the archive under the declared name of that member,
  and in a text backend the names that this writes are the declared names of the
  members in the order of declaration. \<^verbatim>\<open>load\<close>, on the text that was saved,
  succeeds: after the bases it goes through the same ordinals in the same order,
  hands the archive the reference alone and stores what the archive read, and
  the instance it gives is equal to the saved one. What \<^verbatim>\<open>load\<close> reads does
  not depend on the names in the text: with every name replaced through any
  function \<open>f\<close> it gives the same instance and the same heap.
\<close>

theorem members_in_declaration_order:
  assumes "instance_of h C inst" and "instance_of hL C target"
    and "ordinals_in_range (helper_calls C 0)" and "descriptors_valid (helper_calls C 0)"
  shows "\<exists>s ar1 ar' pf ars mid inst' iar' hL'.
           ClassSingleton_ctor C = Inr s \<and>
           memberCount s = length (nonstatic_data_members_of C) \<and>
           for_each [0..<baseCount s] (save_base_step h C inst) ar = Inr ar1 \<and>
           for_each [0..<memberCount s] (\<lambda>i ar.
               OutputArchive_call h ar (Some (identifier_of (member_info C i)))
                 (type_of (member_info C i)) (member_ref_const inst i)) ar1 = Inr ar' \<and>
           save h ar C inst = Inr ar' \<and>
           out_stream ar' = out_stream ar1 @ pf \<and>
           (out_backend ar \<noteq> Binary \<longrightarrow>
              names_at 0 pf = map (\<lambda>m. Some (identifier_of m)) (nonstatic_data_members_of C)) \<and>
           save h (OutputArchive_on b []) C inst = Inr ars \<and>
           for_each [0..<baseCount s] (load_base_step C)
             (target, InputArchive_on b (out_stream ars @ rest), hL) = Inr mid \<and>
           for_each [0..<memberCount s] (\<lambda>i (inst, ar, h).
               and_then (InputArchive_call ar h (type_of (member_info C i)) (member_ref inst i))
                 (\<lambda>(v, ar1, h1). Inr (member_ref_assign inst i v, ar1, h1))) mid
             = Inr (inst', iar', hL') \<and>
           load (InputArchive_on b (out_stream ars @ rest)) hL C target = Inr (inst', iar', hL') \<and>
           load (renamed f (InputArchive_on b (out_stream ars @ rest))) hL C target
             = Inr (inst', renamed f iar', hL') \<and>
           in_stream iar' = rest \<and> structurally_equal_obj h inst hL' inst'"
proof -
  from assms(4) have vi: "valid_identifiers C" by (auto simp: helper_calls.simps [of C 0])
  from save_two_loops [OF assms(1,3,4), of ar 0] obtain s ar1 ar' pb pf where
    s: "ClassSingleton_ctor C = Inr s"
    and sv: "for_each [0..<baseCount s] (save_base_step h C inst) ar = Inr ar1"
      "for_each [0..<memberCount s] (save_field_step h C s inst) ar1 = Inr ar'"
      "save h ar C inst = Inr ar'" "out_stream ar' = out_stream ar1 @ pf"
    and names: "out_backend ar \<noteq> Binary \<longrightarrow>
        names_at 0 pf = map Some (map identifier_of (nonstatic_data_members_of C))"
    by blast
  from load_two_loops [OF assms, of b rest 0] s obtain ars mid inst' iar' hL' where
    ld: "save h (OutputArchive_on b []) C inst = Inr ars"
      "for_each [0..<baseCount s] (load_base_step C)
         (target, InputArchive_on b (out_stream ars @ rest), hL) = Inr mid"
      "for_each [0..<memberCount s] (load_field_step C) mid = Inr (inst', iar', hL')"
      "load (InputArchive_on b (out_stream ars @ rest)) hL C target = Inr (inst', iar', hL')"
      "in_stream iar' = rest" "structurally_equal_obj h inst hL' inst'"
    by auto
  have "for_each [0..<memberCount s] (save_field_step h C s inst) ar1
      = for_each [0..<memberCount s] (\<lambda>i ar.
                 OutputArchive_call h ar (Some (identifier_of (member_info C i)))
                   (type_of (member_info C i)) (member_ref_const inst i)) ar1"
    by (rule for_each_cong) (simp add: save_field_step_name [OF s vi])
  with sv(2) have 1: "for_each [0..<memberCount s] (\<lambda>i ar.
               OutputArchive_call h ar (Some (identifier_of (member_info C i)))
                 (type_of (member_info C i)) (member_ref_const inst i)) ar1 = Inr ar'" by simp
  have 2: "load_field_step C = (\<lambda>i (inst, ar, h).
                 and_then (InputArchive_call ar h (type_of (member_info C i)) (member_ref inst i))
                   (\<lambda>(v, ar1, h1). Inr (member_ref_assign inst i v, ar1, h1)))"
    by (simp add: load_field_step_def fun_eq_iff)
  have 3: "load (renamed f (InputArchive_on b (out_stream ars @ rest))) hL C target
             = Inr (inst', renamed f iar', hL')"
    using ld(4) by (simp add: load_renamed)
  have 4: "memberCount s = length (nonstatic_data_members_of C)"
    using ClassSingleton_ctor_counts [OF s] by simp
  from names have 5: "out_backend ar \<noteq> Binary \<longrightarrow>
        names_at 0 pf = map (\<lambda>m. Some (identifier_of m)) (nonstatic_data_members_of C)"
    by (simp add: comp_def)
  from s 4 sv(1) 1 sv(3,4) 5 ld(1,2) ld(3) [unfolded 2] ld(4) 3 ld(5,6) show ?thesis by blast
qed

lemma Pleh_instances: "instance_of [] Pleh pleh" "instance_of [] Pleh pleh_copy"
  by (subst instance_of.simps,
      simp add: Pleh_def pleh_def pleh_copy_def member_info_def type_of_def all_less_Suc)+

lemma Pleh_calls:
  "ordinals_in_range (helper_calls Pleh 0)" "descriptors_valid (helper_calls Pleh 0)"
  by (simp_all add: helper_calls.simps class_simps Pleh_ok member_info_def type_of_def)

theorem members_in_declaration_order_witness:
  "instance_of [] Pleh pleh \<and> instance_of [] Pleh pleh_copy \<and>
   ordinals_in_range (helper_calls Pleh 0) \<and> descriptors_valid (helper_calls Pleh 0) \<and>
   (\<exists>ar' pf ars inst' iar' hL'.
      for_each [0..<2] (\<lambda>i ar.
          OutputArchive_call [] ar (Some (identifier_of (member_info Pleh i)))
            (type_of (member_info Pleh i)) (member_ref_const pleh i)) (JSONOutputArchive []) = Inr ar' \<and>
      save [] (JSONOutputArchive []) Pleh pleh = Inr ar' \<and>
      out_stream ar' = pf \<and> names_at 0 pf = [Some ''foo'', Some ''bar''] \<and>
      save [] (OutputArchive_on JSON []) Pleh pleh = Inr ars \<and>
      load (InputArchive_on JSON (out_stream ars @ [])) [] Pleh pleh_copy = Inr (inst', iar', hL') \<and>
      load (renamed (\<lambda>name. None) (InputArchive_on JSON (out_stream ars @ []))) [] Pleh pleh_copy
        = Inr (inst', renamed (\<lambda>name. None) iar', hL') \<and>
      structurally_equal_obj [] pleh hL' inst')"
proof -
  from members_in_declaration_order [OF Pleh_instances Pleh_calls,
      of "JSONOutputArchive []" JSON "[]" "\<lambda>name. None"]
  obtain s ar1 ar' pf ars mid inst' iar' hL' where
    s: "ClassSingleton_ctor Pleh = Inr s"
    and r: "for_each [0..<baseCount s] (save_base_step [] Pleh pleh) (JSONOutputArchive []) = Inr ar1"
      "for_each [0..<memberCount s] (\<lambda>i ar.
          OutputArchive_call [] ar (Some (identifier_of (member_info Pleh i)))
            (type_of (member_info Pleh i)) (member_ref_const pleh i)) ar1 = Inr ar'"
      "save [] (JSONOutputArchive []) Pleh pleh = Inr ar'"
      "out_stream ar' = out_stream ar1 @ pf"
      "out_backend (JSONOutputArchive []) \<noteq> Binary \<longrightarrow>
         names_at 0 pf = map (\<lambda>m. Some (identifier_of m)) (nonstatic_data_members_of Pleh)"
      "save [] (OutputArchive_on JSON []) Pleh pleh = Inr ars"
      "load (InputArchive_on JSON (out_stream ars @ [])) [] Pleh pleh_copy = Inr (inst', iar', hL')"
      "load (renamed (\<lambda>name. None) (InputArchive_on JSON (out_stream ars @ []))) [] Pleh pleh_copy
        = Inr (inst', renamed (\<lambda>name. None) iar', hL')"
      "structurally_equal_obj [] pleh hL' inst'"
    by blast
  from s have s': "s = Pleh_singleton" by (simp add: ClassSingleton_ctor_Pleh)
  from r(1) have a: "ar1 = JSONOutputArchive []" by (simp add: s' Pleh_singleton_def)
  from s' have mc: "memberCount s = 2" by (simp add: Pleh_singleton_def)
  note b = r(2) [unfolded mc a]
  from r(4) have c: "out_stream ar' = pf" by (simp add: a JSONOutputArchive_def)
  from r(5) have d: "names_at 0 pf = [Some ''foo'', Some ''bar'']"
    by (simp add: JSONOutputArchive_def class_simps identifier_of_def)
  from b r(3) c d r(6-) have "\<exists>ar' pf ars inst' iar' hL'.
      for_each [0..<2] (\<lambda>i ar.
          OutputArchive_call [] ar (Some (identifier_of (member_info Pleh i)))
            (type_of (member_info Pleh i)) (member_ref_const pleh i)) (JSONOutputArchive []) = Inr ar' \<and>
      save [] (JSONOutputArchive []) Pleh pleh = Inr ar' \<and>
      out_stream ar' = pf \<and> names_at 0 pf = [Some ''foo'', Some ''bar''] \<and>
      save [] (OutputArchive_on JSON []) Pleh pleh = Inr ars \<and>
      load (InputArchive_on JSON (out_stream ars @ [])) [] Pleh pleh_copy = Inr (inst', iar', hL') \<and>
      load (renamed (\<lambda>name. None) (InputArchive_on JSON (out_stream ars @ []))) [] Pleh pleh_copy
        = Inr (inst', renamed (\<lambda>name. None) iar', hL') \<and>
      structurally_equal_obj [] pleh hL' inst'"
    by blast
  with Pleh_instances Pleh_calls show ?thesis by blast
qed

text \<open>
  \<open>HasDerivedBase\<close> has the member \<open>own\<close>, an identifier of the language, and
  its descriptor builds with member count 1; its base \<open>Derived\<close> has no member.
  Neither save nor load of an instance gets to \<open>own\<close>: both stop at the static
  assertion in the traversal of the base. With a base whose member name is too
  long, they stop at the assertion in the construction of that base's descriptor.
\<close>

theorem own_member_not_reached:
  "ClassSingleton_ctor HasDerivedBase
     = Inr \<lparr> memberNamesStrings = [''own''], memberCount = 1, baseCount = 1, bases = [Derived] \<rparr> \<and>
   valid_identifiers HasDerivedBase \<and> names_in_bounds HasDerivedBase \<and>
   instance_of [] HasDerivedBase has_derived_base \<and>
   save [] (OutputArchive_on JSON []) HasDerivedBase has_derived_base = Inl StaticAssert \<and>
   save [] (OutputArchive_on XML []) HasDerivedBase has_derived_base = Inl StaticAssert \<and>
   save [] (OutputArchive_on Binary []) HasDerivedBase has_derived_base = Inl StaticAssert \<and>
   load (InputArchive_on JSON [Value (Some ''foo'') (IntV 22), Value (Some ''own'') (IntV 7)]) []
     HasDerivedBase has_derived_base = Inl StaticAssert \<and>
   ClassSingleton_ctor HasLongNameBase
     = Inr \<lparr> memberNamesStrings = [''own''], memberCount = 1, baseCount = 1, bases = [LongName] \<rparr> \<and>
   valid_identifiers HasLongNameBase \<and> names_in_bounds HasLongNameBase \<and>
   instance_of [] HasLongNameBase has_long_name_base \<and>
   save [] (OutputArchive_on JSON []) HasLongNameBase has_long_name_base = Inl ConstevalAssert \<and>
   load (InputArchive_on JSON [Value (Some ''own'') (IntV 7)]) [] HasLongNameBase has_long_name_base
     = Inl ConstevalAssert"
  using ClassSingleton_ctor_HasDerivedBase HasDerivedBase_instance HasDerivedBase_rejected
    ClassSingleton_ctor_HasLongNameBase HasLongNameBase_instance HasLongNameBase_rejected
  by (simp add: names_in_bounds_def valid_identifiers_def valid_identifier_def HasDerivedBase_def
        HasLongNameBase_def identifier_of_def MAX_CLASS_MEMBERS_def MAX_IDENTIFIER_LENGTH_def NUL_def)

section \<open>Depth of the recursion\<close>

lemma fold_max_ge: "(a::nat) \<le> fold max xs a"
  by (induction xs arbitrary: a) (auto intro: order_trans [OF max.cobounded2])

lemma fold_max_mem: "(x::nat) \<in> set xs \<Longrightarrow> x \<le> fold max xs a"
proof (induction xs arbitrary: a)
  case (Cons y ys)
  show ?case
  proof (cases "x = y")
    case True
    have "x \<le> max x a" by simp
    also have "\<dots> \<le> fold max ys (max x a)" by (rule fold_max_ge)
    finally show ?thesis using True by simp
  next
    case False
    with Cons show ?thesis by simp
  qed
qed simp

lemma fold_max_le: "(a::nat) \<le> b \<Longrightarrow> \<forall>x\<in>set xs. x \<le> b \<Longrightarrow> fold max xs a \<le> b"
  by (induction xs arbitrary: a) auto

lemma parents_depth_ge:
  "k \<le> j \<Longrightarrow> j < length (bases_of C) \<Longrightarrow> helper_depth (bases_of C ! j) 0 \<le> parents_depth C k"
proof (induction "length (bases_of C) - k" arbitrary: k)
  case 0
  then show ?case by simp
next
  case (Suc d)
  show ?case
  proof (cases "j = k")
    case True
    with Suc.prems show ?thesis by (simp add: parents_depth.simps [of C k])
  next
    case False
    with Suc.prems have 1: "Suc k \<le> j" "k + 1 < length (bases_of C)" by simp_all
    from Suc.hyps(2) have "d = length (bases_of C) - Suc k" by simp
    from Suc.hyps(1) [OF this 1(1) Suc.prems(2)] 1 Suc.prems
    show ?thesis by (simp add: parents_depth.simps [of C k])
  qed
qed

lemma parents_depth_le:
  "\<forall>j. k \<le> j \<and> j < length (bases_of C) \<longrightarrow> helper_depth (bases_of C ! j) 0 \<le> b \<Longrightarrow>
   parents_depth C k \<le> b"
proof (induction "length (bases_of C) - k" arbitrary: k)
  case 0
  then show ?case by (simp add: parents_depth.simps [of C k])
next
  case (Suc d)
  from Suc.hyps(2) have k: "k < length (bases_of C)" by simp
  from Suc.hyps(2) have "d = length (bases_of C) - Suc k" by simp
  from Suc.hyps(1) [OF this] Suc.prems have "parents_depth C (Suc k) \<le> b" by simp
  moreover from Suc.prems k have "helper_depth (bases_of C ! k) 0 \<le> b" by simp
  ultimately show ?case by (simp add: parents_depth.simps [of C k])
qed

lemma parents_calls_in_range:
  "ordinals_in_range (parents_calls C k) \<Longrightarrow> k \<le> j \<Longrightarrow> j < length (bases_of C) \<Longrightarrow>
   ordinals_in_range (helper_calls (bases_of C ! j) 0)"
proof (induction "length (bases_of C) - k" arbitrary: k)
  case 0
  then show ?case by simp
next
  case (Suc d)
  show ?case
  proof (cases "j = k")
    case True
    with Suc.prems show ?thesis by (simp add: parents_calls.simps [of C k])
  next
    case False
    with Suc.prems have 1: "Suc k \<le> j" "k + 1 < length (bases_of C)" by simp_all
    from Suc.hyps(2) have d: "d = length (bases_of C) - Suc k" by simp
    from Suc.prems(1) 1 have "ordinals_in_range (parents_calls C (Suc k))"
      by (simp add: parents_calls.simps [of C k])
    from Suc.hyps(1) [OF d this 1(1) Suc.prems(3)] show ?thesis .
  qed
qed

lemma helper_depth_fields:
  "index < length (nonstatic_data_members_of C) \<Longrightarrow>
   length (nonstatic_data_members_of C) - index \<le> helper_depth C index"
proof (induction "length (nonstatic_data_members_of C) - index" arbitrary: index)
  case 0
  then show ?case by simp
next
  case (Suc d)
  show ?case
  proof (cases "index + 1 < length (nonstatic_data_members_of C)")
    case True
    from Suc.hyps(2) have "d = length (nonstatic_data_members_of C) - (index + 1)" by simp
    from Suc.hyps(1) [OF this True]
    have 1: "length (nonstatic_data_members_of C) - (index + 1) \<le> helper_depth C (index + 1)" .
    from True Suc.prems have "Suc (helper_depth C (index + 1)) \<le> helper_depth C index"
      by (auto simp: helper_depth.simps [of C index] le_max_iff_disj)
    with 1 show ?thesis by simp
  next
    case False
    with Suc.prems show ?thesis by (simp add: helper_depth.simps [of C index])
  qed
qed

lemma Suc_fold_max_le:
  "xs \<noteq> [] \<Longrightarrow> \<forall>x\<in>set xs. Suc x \<le> b \<Longrightarrow> Suc (fold max xs 0) \<le> b"
proof -
  assume ne: "xs \<noteq> []" and all: "\<forall>x\<in>set xs. Suc x \<le> b"
  from ne all have "0 < b" by (cases xs) auto
  with all have "fold max xs 0 \<le> b - 1" by (intro fold_max_le) auto
  with \<open>0 < b\<close> show ?thesis by simp
qed

lemma depth_above_levels:
  "ordinals_in_range (helper_calls C 0) \<Longrightarrow> Suc (ancestor_levels C) \<le> helper_depth C 0"
proof (induction C rule: measure_induct_rule [where f = size])
  case (less C)
  from less.prems have ne: "0 < length (nonstatic_data_members_of C)"
    by (simp add: helper_calls.simps [of C 0])
  show ?case
  proof (cases "bases_of C = []")
    case True
    then show ?thesis by (simp add: ancestor_levels.simps [of C] helper_depth.simps [of C 0])
  next
    case False
    then have bl: "0 < length (bases_of C)" by simp
    with less.prems ne have pr: "ordinals_in_range (parents_calls C 0)"
      by (auto simp: helper_calls.simps [of C 0] cong: if_cong)
    have "Suc (ancestor_levels B) \<le> parents_depth C 0" if "B \<in> set (bases_of C)" for B
    proof -
      from that obtain j where j: "j < length (bases_of C)" "B = bases_of C ! j"
        by (auto simp: in_set_conv_nth)
      from parents_calls_in_range [OF pr _ j(1)] have "ordinals_in_range (helper_calls B 0)"
        by (simp add: j)
      from less.IH [OF size_base_mem_less [OF that] this]
      have "Suc (ancestor_levels B) \<le> helper_depth B 0" .
      also have "\<dots> \<le> parents_depth C 0" using parents_depth_ge [OF _ j(1), of 0] by (simp add: j)
      finally show ?thesis .
    qed
    then have "Suc (fold max (map ancestor_levels (bases_of C)) 0) \<le> parents_depth C 0"
      using False by (intro Suc_fold_max_le) auto
    with False ne show ?thesis
      by (simp add: ancestor_levels.simps [of C] helper_depth.simps [of C 0])
  qed
qed

lemma depth_one_plain_member:
  "one_plain_member C \<Longrightarrow> helper_depth C 0 = Suc (ancestor_levels C)"
proof (induction C rule: measure_induct_rule [where f = size])
  case (less C)
  from less.prems have m: "length (nonstatic_data_members_of C) = 1"
    "is_scalar (type_of (member_info C 0))" "list_all one_plain_member (bases_of C)"
    by (simp_all add: one_plain_member.simps [of C])
  from m(2) have a: "archive_depth (type_of (member_info C 0)) = 0"
    by (cases "type_of (member_info C 0)") simp_all
  show ?case
  proof (cases "bases_of C = []")
    case True
    with m a show ?thesis by (simp add: ancestor_levels.simps [of C] helper_depth.simps [of C 0])
  next
    case False
    have eq: "helper_depth B 0 = Suc (ancestor_levels B)" if "B \<in> set (bases_of C)" for B
      using less.IH [OF size_base_mem_less [OF that]] m(3) that by (simp add: list_all_iff)
    let ?f = "fold max (map ancestor_levels (bases_of C)) 0"
    have "parents_depth C 0 \<le> Suc ?f"
    proof (rule parents_depth_le, intro allI impI)
      fix j assume "0 \<le> j \<and> j < length (bases_of C)"
      then have B: "bases_of C ! j \<in> set (bases_of C)" by simp
      have "ancestor_levels (bases_of C ! j) \<le> ?f" using B by (intro fold_max_mem) simp
      with eq [OF B] show "helper_depth (bases_of C ! j) 0 \<le> Suc ?f" by simp
    qed
    moreover have "Suc ?f \<le> parents_depth C 0"
    proof (rule Suc_fold_max_le)
      show "map ancestor_levels (bases_of C) \<noteq> []" using False by simp
      show "\<forall>x\<in>set (map ancestor_levels (bases_of C)). Suc x \<le> parents_depth C 0"
      proof
        fix x assume "x \<in> set (map ancestor_levels (bases_of C))"
        then obtain j where j: "j < length (bases_of C)" "x = ancestor_levels (bases_of C ! j)"
          by (auto simp: in_set_conv_nth)
        then have B: "bases_of C ! j \<in> set (bases_of C)" by simp
        from parents_depth_ge [OF _ j(1), of 0] eq [OF B] j show "Suc x \<le> parents_depth C 0" by simp
      qed
    qed
    ultimately have "parents_depth C 0 = Suc ?f" by simp
    with False m a show ?thesis by (simp add: ancestor_levels.simps [of C] helper_depth.simps [of C 0])
  qed
qed

lemma calls_stop:
  "index = 0 \<or> index < length (nonstatic_data_members_of C) \<Longrightarrow>
     \<forall>(D, j) \<in> set (helper_calls C index). j = 0 \<or> j < length (nonstatic_data_members_of D)"
  "\<forall>(D, j) \<in> set (parents_calls C index). j = 0 \<or> j < length (nonstatic_data_members_of D)"
  "\<forall>(D, j) \<in> set (archive_calls T). j = 0 \<or> j < length (nonstatic_data_members_of D)"
proof (induction C index and C index and T rule: helper_calls_parents_calls_archive_calls.induct)
  case (1 C index)
  show ?case using 1 by (subst helper_calls.simps) auto
next
  case (2 C index)
  show ?case using 2 by (subst parents_calls.simps) auto
qed simp_all

lemma Pleh_depth: "helper_depth Pleh 0 = 2" "ancestor_levels Pleh = 0"
  by (simp_all add: helper_depth.simps ancestor_levels.simps class_simps member_info_def type_of_def)

lemma Child_depth: "helper_depth Child 0 = 2" "ancestor_levels Child = 1"
  by (simp_all add: helper_depth.simps parents_depth.simps ancestor_levels.simps class_simps member_info_def type_of_def)

lemma Child_plain: "one_plain_member Child"
  by (simp add: one_plain_member.simps class_simps member_info_def type_of_def)

lemma with_depth_simps [simp]:
  "with_depth d (Inl e) = Inl e"
  "with_depth d (Inr ar) = Inr (ar, d)"
  by (simp_all add: with_depth_def)

text \<open>
  A save that is counted writes what the save writes, and when it succeeds the
  count is the depth that the shape of the class gives.
\<close>

lemma save_depth_counts:
  "saveHelper_depth h ar C n index inst = with_depth (helper_depth C index) (saveHelper h ar C n index inst)"
  "saveParents_depth h ar C index inst = with_depth (parents_depth C index) (saveParents h ar C index inst)"
  "save_depth h ar C inst = with_depth (helper_depth C 0) (save h ar C inst)"
  "OutputArchive_call_depth h ar name T v = with_depth (archive_depth T) (OutputArchive_call h ar name T v)"
proof (induction h ar C n index inst and h ar C index inst and h ar C inst and h ar name T v
       rule: saveHelper_depth_saveParents_depth_save_depth_OutputArchive_call_depth.induct)
  case (1 h ar C memberCount' index inst)
  note unf = saveHelper_depth.simps [of h ar C memberCount' index inst]
    saveHelper.simps [of h ar C memberCount' index inst]
  show ?case
  proof (cases "ClassSingleton_ctor C")
    case (Inl e)
    then show ?thesis by (simp add: unf)
  next
    case (Inr s)
    note cnt = ClassSingleton_ctor_counts [OF Inr]
    show ?thesis
    proof (cases "0 < memberCount s \<and> index < memberCount s")
      case False
      then show ?thesis using Inr by (auto simp: unf)
    next
      case True
      then have g: "\<not> \<not> 0 < memberCount s" "\<not> \<not> index < memberCount s" by simp_all
      let ?d1 = "if index = 0 \<and> baseCount s > 0 then parents_depth C 0 else 0"
      let ?d3 = "if index + 1 < memberCount s then helper_depth C (index + 1) else 0"
      let ?d2 = "archive_depth (type_of (member_info C index))"
      have hd: "helper_depth C index = Suc (max ?d1 (max ?d2 ?d3))"
        using True cnt by (simp add: helper_depth.simps [of C index] cong: if_cong)
      let ?p = "if index = 0 \<and> baseCount s > 0 then saveParents h ar C 0 inst else Inr ar"
      let ?p' = "if index = 0 \<and> baseCount s > 0 then saveParents_depth h ar C 0 inst else Inr (ar, 0)"
      have p: "?p' = with_depth ?d1 ?p"
        using "1.IH"(1) [OF Inr g] by simp
      show ?thesis
      proof (cases ?p)
        case (Inl e)
        with p have "?p' = Inl e" by simp
        with Inl Inr True show ?thesis by (simp add: unf)
      next
        case r1: (Inr ar1)
        from p r1 have r1': "?p' = Inr (ar1, ?d1)" by simp
        show ?thesis
        proof (cases "index < length (member_values inst)")
          case False
          with Inr True r1 r1' show ?thesis by (simp add: unf)
        next
          case t: True
          then have t': "\<not> \<not> index < length (member_values inst)" by simp
          show ?thesis
          proof (cases "memberAtIndex s index")
            case (Inl e)
            with Inr True r1 r1' t show ?thesis by (simp add: unf)
          next
            case nm: (Inr name)
            let ?c = "OutputArchive_call h ar1 (Some name) (type_of (member_info C index))
                         (member_ref_const inst index)"
            let ?c' = "OutputArchive_call_depth h ar1 (Some name) (type_of (member_info C index))
                         (member_ref_const inst index)"
            have c: "?c' = with_depth ?d2 ?c"
              using "1.IH"(2) [OF Inr g r1' refl t' nm] .
            show ?thesis
            proof (cases ?c)
              case (Inl e)
              with c have "?c' = Inl e" by simp
              with Inl Inr True r1 r1' t nm show ?thesis by (simp add: unf)
            next
              case r2: (Inr ar2)
              from c r2 have r2': "?c' = Inr (ar2, ?d2)" by simp
              let ?n = "if index + 1 < memberCount s
                        then saveHelper h ar2 C (memberCount s) (index + 1) inst else Inr ar2"
              let ?n' = "if index + 1 < memberCount s
                        then saveHelper_depth h ar2 C (memberCount s) (index + 1) inst else Inr (ar2, 0)"
              have n: "?n' = with_depth ?d3 ?n"
                using "1.IH"(3) [OF Inr g r1' refl t' nm r2' refl] by simp
              show ?thesis
              proof (cases ?n)
                case (Inl e)
                with n have "?n' = Inl e" by simp
                with Inl Inr True r1 r1' t nm r2 r2' show ?thesis by (simp add: unf)
              next
                case r3: (Inr ar3)
                from n r3 have r3': "?n' = Inr (ar3, ?d3)" by simp
                from Inr True r1 r1' t nm r2 r2' r3 r3' show ?thesis by (simp add: unf hd)
              qed
            qed
          qed
        qed
      qed
    qed
  qed
next
  case (2 h ar C index inst)
  note unf = saveParents_depth.simps [of h ar C index inst] saveParents.simps [of h ar C index inst]
  show ?case
  proof (cases "ClassSingleton_ctor C")
    case (Inl e)
    then show ?thesis by (simp add: unf)
  next
    case (Inr s)
    note cnt = ClassSingleton_ctor_counts [OF Inr]
    show ?thesis
    proof (cases "index < length (bases s)")
      case False
      then show ?thesis using Inr by (simp add: unf)
    next
      case k: True
      then have k': "\<not> \<not> index < length (bases s)" by simp
      let ?d1 = "helper_depth (bases s ! index) 0"
      let ?d2 = "if index + 1 < baseCount s then parents_depth C (index + 1) else 0"
      have pd: "parents_depth C index = max ?d1 ?d2"
        using k cnt by (simp add: parents_depth.simps [of C index] cong: if_cong)
      show ?thesis
      proof (cases "ClassSingleton_ctor (bases s ! index)")
        case (Inl e)
        then show ?thesis using Inr k by (simp add: unf)
      next
        case pI: (Inr p)
        show ?thesis
        proof (cases "index < length (base_subobjects inst)")
          case False
          then show ?thesis using Inr k pI by (simp add: unf)
        next
          case t: True
          then have t': "\<not> \<not> index < length (base_subobjects inst)" by simp
          let ?c = "saveHelper h ar (bases s ! index) (memberCount p) 0 (static_cast_base inst index)"
          let ?c' = "saveHelper_depth h ar (bases s ! index) (memberCount p) 0 (static_cast_base inst index)"
          have c: "?c' = with_depth ?d1 ?c"
            using "2.IH"(1) [OF Inr k' pI t'] .
          show ?thesis
          proof (cases ?c)
            case (Inl e)
            with c have "?c' = Inl e" by simp
            with Inl Inr k pI t show ?thesis by (simp add: unf)
          next
            case r: (Inr ar1)
            from c r have r': "?c' = Inr (ar1, ?d1)" by simp
            let ?n = "if index + 1 < baseCount s then saveParents h ar1 C (index + 1) inst else Inr ar1"
            let ?n' = "if index + 1 < baseCount s then saveParents_depth h ar1 C (index + 1) inst
                       else Inr (ar1, 0)"
            have n: "?n' = with_depth ?d2 ?n"
              using "2.IH"(2) [OF Inr k' pI t' r' refl] by simp
            show ?thesis
            proof (cases ?n)
              case (Inl e)
              with n have "?n' = Inl e" by simp
              with Inl Inr k pI t r r' show ?thesis by (simp add: unf)
            next
              case r3: (Inr ar3)
              from n r3 have r3': "?n' = Inr (ar3, ?d2)" by simp
              from Inr k pI t r r' r3 r3' show ?thesis by (simp add: unf pd)
            qed
          qed
        qed
      qed
    qed
  qed
next
  case (3 h ar C inst)
  show ?case
  proof (cases "ClassSingleton_ctor C")
    case (Inl e)
    then show ?thesis by (simp add: save.simps save_depth.simps)
  next
    case (Inr s)
    from "3.IH" [OF Inr] Inr show ?thesis by (simp add: save.simps save_depth.simps)
  qed
next
  case (4 h ar name T s)
  show ?case by (cases T; cases "save_scalar ar name (case T of ScalarT t \<Rightarrow> t | _ \<Rightarrow> IntT) s") simp_all
next
  case (5 h ar name T p)
  show ?case
    by (cases T; cases "save_shared_ptr h ar name (case T of SharedT t \<Rightarrow> t | _ \<Rightarrow> IntT) p") simp_all
next
  case (6 h ar name T inst)
  show ?case
  proof (cases T)
    case (ClassT C)
    from "6.IH" [OF ClassT]
    have l: "save_depth h (startNode ar name) C inst
        = with_depth (helper_depth C 0) (save h (startNode ar name) C inst)" .
    show ?thesis
      using l ClassT by (cases "save h (startNode ar name) C inst") simp_all
  qed simp_all
qed

text \<open>
  C7. The classes of the model are finite trees, so no class is its own
  ancestor, and \<^verbatim>\<open>saveHelper\<close>, \<^verbatim>\<open>saveParents\<close>, \<^verbatim>\<open>loadHelper\<close> and
  \<^verbatim>\<open>loadParents\<close> are total. Take a class such that it and every class
  reached from it is within the bounds on its names and has at least one data
  member, an instance of it to save and one to load into. Save returns, as the
  loop over the base indices followed by the loop over the member ordinals, and
  load of what was saved returns. The recursion by member ordinal runs the
  ordinals \<open>index..<memberCount\<close> and no further, the recursion by base index
  runs \<open>index..<baseCount\<close> and no further. While the save runs, the
  invocations of \<^verbatim>\<open>saveHelper\<close> nest at least one deeper than the levels of
  ancestors and at least as deep as the class has members; they nest exactly one
  deeper than the levels of ancestors when every class of the hierarchy has one
  member, of type \<^verbatim>\<open>int\<close> or \<^verbatim>\<open>std::string\<close>.
\<close>

theorem recursion_ends:
  assumes "instance_of h C inst" and "instance_of hL C target"
    and "ordinals_in_range (helper_calls C 0)" and "descriptors_valid (helper_calls C 0)"
  shows "\<exists>s ar1 ar' d ars inst' iar' hL'.
           ClassSingleton_ctor C = Inr s \<and>
           for_each [0..<baseCount s] (save_base_step h C inst) ar = Inr ar1 \<and>
           for_each [0..<memberCount s] (save_field_step h C s inst) ar1 = Inr ar' \<and>
           (\<forall>index. 0 < index \<and> index < memberCount s \<longrightarrow>
              saveHelper h ar C n index inst
                = for_each [index..<memberCount s] (save_field_step h C s inst) ar \<and>
              loadHelper iar hL C n index target
                = for_each [index..<memberCount s] (load_field_step C) (target, iar, hL)) \<and>
           (\<forall>index. index < baseCount s \<longrightarrow>
              saveParents h ar C index inst
                = for_each [index..<baseCount s] (save_base_step h C inst) ar \<and>
              loadParents iar hL C index target
                = for_each [index..<baseCount s] (load_base_step C) (target, iar, hL)) \<and>
           saveHelper_depth h ar C n 0 inst = Inr (ar', d) \<and>
           save_depth h ar C inst = Inr (ar', d) \<and>
           save h ar C inst = Inr ar' \<and>
           ancestor_levels C + 1 \<le> d \<and>
           length (nonstatic_data_members_of C) \<le> d \<and>
           (one_plain_member C \<longrightarrow> d = ancestor_levels C + 1) \<and>
           save h (OutputArchive_on b []) C inst = Inr ars \<and>
           load (InputArchive_on b (out_stream ars @ rest)) hL C target = Inr (inst', iar', hL') \<and>
           in_stream iar' = rest"
proof -
  from save_two_loops [OF assms(1,3,4), of ar n] obtain s ar1 ar' where
    s: "ClassSingleton_ctor C = Inr s" and mc: "0 < memberCount s"
    and lenb: "length (base_subobjects inst) = baseCount s"
    and lenm: "length (member_values inst) = memberCount s"
    and sv: "for_each [0..<baseCount s] (save_base_step h C inst) ar = Inr ar1"
      "for_each [0..<memberCount s] (save_field_step h C s inst) ar1 = Inr ar'"
      "saveHelper h ar C n 0 inst = Inr ar'" "save h ar C inst = Inr ar'"
    by blast
  note cnt = ClassSingleton_ctor_counts [OF s]
  note iD = instance_ofD [OF assms(2)]
  have lentb: "length (base_subobjects target) = baseCount s" using iD(1) cnt by simp
  have lentm: "length (member_values target) = memberCount s" using iD(2) cnt by simp
  from round_trip_general [OF assms, of b rest] obtain ars inst' iar' hL' where
    ld: "save h (OutputArchive_on b []) C inst = Inr ars"
      "load (InputArchive_on b (out_stream ars @ rest)) hL C target = Inr (inst', iar', hL')"
      "in_stream iar' = rest"
    by blast
  define d where "d = helper_depth C 0"
  have dp: "saveHelper_depth h ar C n 0 inst = Inr (ar', d)" "save_depth h ar C inst = Inr (ar', d)"
    using sv(3,4) by (simp_all add: save_depth_counts d_def)
  have fields: "\<forall>index. 0 < index \<and> index < memberCount s \<longrightarrow>
              saveHelper h ar C n index inst
                = for_each [index..<memberCount s] (save_field_step h C s inst) ar \<and>
              loadHelper iar hL C n index target
                = for_each [index..<memberCount s] (load_field_step C) (target, iar, hL)"
    using save_fields_loop [OF s lenm] load_fields_loop [OF s lentm] by simp
  have bases: "\<forall>index. index < baseCount s \<longrightarrow>
              saveParents h ar C index inst
                = for_each [index..<baseCount s] (save_base_step h C inst) ar \<and>
              loadParents iar hL C index target
                = for_each [index..<baseCount s] (load_base_step C) (target, iar, hL)"
    using save_parents_loop [OF s lenb] load_parents_loop [OF s lentb] by simp
  have b1: "ancestor_levels C + 1 \<le> d"
    using depth_above_levels [OF assms(3)] by (simp add: d_def)
  have b2: "length (nonstatic_data_members_of C) \<le> d"
    using helper_depth_fields [of 0 C] mc cnt by (simp add: d_def)
  have b3: "one_plain_member C \<longrightarrow> d = ancestor_levels C + 1"
    using depth_one_plain_member [of C] by (simp add: d_def)
  from s sv(1,2) fields bases dp sv(4) b1 b2 b3 ld show ?thesis by blast
qed

theorem recursion_ends_witness:
  "instance_of [] Child child \<and> instance_of [] Child child_copy \<and>
   ordinals_in_range (helper_calls Child 0) \<and> descriptors_valid (helper_calls Child 0) \<and>
   one_plain_member Child \<and> ancestor_levels Child = 1 \<and>
   (\<exists>ar' ars inst' iar' hL'.
      save_depth [] (JSONOutputArchive []) Child child = Inr (ar', 2) \<and>
      save [] (JSONOutputArchive []) Child child = Inr ar' \<and>
      save [] (OutputArchive_on Binary []) Child child = Inr ars \<and>
      load (InputArchive_on Binary (out_stream ars @ [])) [] Child child_copy = Inr (inst', iar', hL') \<and>
      in_stream iar' = [])"
proof -
  have 1: "instance_of [] Child child" "instance_of [] Child child_copy"
    by (simp_all add: child_def child_copy_def Child_instance)
  from recursion_ends [OF 1 Child_calls, of "JSONOutputArchive []" 0 "JSONInputArchive []" Binary "[]"]
  obtain ar' d ars inst' iar' hL' where
    r: "save_depth [] (JSONOutputArchive []) Child child = Inr (ar', d)"
      "save [] (JSONOutputArchive []) Child child = Inr ar'"
      "one_plain_member Child \<longrightarrow> d = ancestor_levels Child + 1"
      "save [] (OutputArchive_on Binary []) Child child = Inr ars"
      "load (InputArchive_on Binary (out_stream ars @ [])) [] Child child_copy = Inr (inst', iar', hL')"
      "in_stream iar' = []"
    by blast
  from r(3) Child_plain Child_depth(2) have "d = 2" by simp
  with r(1) have "save_depth [] (JSONOutputArchive []) Child child = Inr (ar', 2)" by simp
  with r(2,4,5,6) have "\<exists>ar' ars inst' iar' hL'.
      save_depth [] (JSONOutputArchive []) Child child = Inr (ar', 2) \<and>
      save [] (JSONOutputArchive []) Child child = Inr ar' \<and>
      save [] (OutputArchive_on Binary []) Child child = Inr ars \<and>
      load (InputArchive_on Binary (out_stream ars @ [])) [] Child child_copy = Inr (inst', iar', hL') \<and>
      in_stream iar' = []" by blast
  with 1 Child_calls Child_plain Child_depth(2) show ?thesis by simp
qed

text \<open>
  \<open>SerialPleh\<close> has two members and no base: above it are 0 levels of
  ancestors, and its save nests 2 deep, the invocation at ordinal 1 inside the
  invocation at ordinal 0. \<open>Derived\<close> has no member and one level of ancestors:
  the one invocation of \<^verbatim>\<open>saveHelper\<close> fails its static assertion, at depth 1
  and not 2, and the save does not return an archive. With a base whose
  descriptor does not build, the save does not return one either.
\<close>

theorem depth_of_two_members:
  "ancestor_levels Pleh = 0 \<and>
   save_depth [] (JSONOutputArchive []) Pleh pleh
     = Inr (\<lparr> out_backend = JSON,
               out_stream = [Value (Some ''foo'') (IntV 1), Value (Some ''bar'') (StringV ''PLEH!'')],
               out_shared = [] \<rparr>, 2) \<and>
   helper_calls Pleh 0 = [(Pleh, 0), (Pleh, 1)] \<and>
   ancestor_levels Derived = 1 \<and> helper_depth Derived 0 = 1 \<and>
   helper_calls Derived 0 = [(Derived, 0)] \<and>
   save_depth [] (JSONOutputArchive []) Derived derived = Inl StaticAssert \<and>
   save_depth [] (JSONOutputArchive []) HasLongNameBase has_long_name_base = Inl ConstevalAssert"
proof -
  have 1: "nonstatic_data_members_of Derived = []" "bases_of Derived = [Parent]"
    by (simp_all add: Derived_def)
  have 2: "save [] (JSONOutputArchive []) Pleh pleh
     = Inr \<lparr> out_backend = JSON,
               out_stream = [Value (Some ''foo'') (IntV 1), Value (Some ''bar'') (StringV ''PLEH!'')],
               out_shared = [] \<rparr>"
    by (simp add: run_simps Pleh_singleton_def pleh_def)
  have 3: "ancestor_levels Derived = 1" "helper_depth Derived 0 = 1" "helper_calls Derived 0 = [(Derived, 0)]"
    by (simp_all add: ancestor_levels.simps helper_depth.simps helper_calls.simps 1 class_simps)
  have 4: "helper_calls Pleh 0 = [(Pleh, 0), (Pleh, 1)]"
    by (simp add: helper_calls.simps class_simps member_info_def type_of_def)
  show ?thesis
    using 2 3 4 Pleh_depth no_members_rejected(1) [OF 1(1)] HasLongNameBase_rejected(1)
    by (simp add: save_depth_counts)
qed

section \<open>Saving leaves the object as it was\<close>

text \<open>
  C10. Whatever the archive and its backend, a completed \<^verbatim>\<open>cereal::save\<close>
  hands the instance back with every member, those of its bases among them, as
  it was given, and the heap of shared targets with it; so does every
  invocation of \<^verbatim>\<open>saveHelper\<close> and of \<^verbatim>\<open>saveParents\<close> on the way, and the
  call of the archive on a value of any type. \<^verbatim>\<open>to_output_archive\<close>,
  \<^verbatim>\<open>to_json\<close> and \<^verbatim>\<open>to_xml\<close> leave the object and the heap that they
  receive by reference as they found them.
\<close>

theorem saving_leaves_object:
  "(save_ref h ar C inst = Inr (inst', ar', h') \<longrightarrow> inst' = inst \<and> h' = h) \<and>
   (saveHelper_ref h ar C n index inst = Inr (inst', ar', h') \<longrightarrow> inst' = inst \<and> h' = h) \<and>
   (saveParents_ref h ar C index inst = Inr (inst', ar', h') \<longrightarrow> inst' = inst \<and> h' = h) \<and>
   (OutputArchive_call_ref h ar name T v = Inr (v', ar', h') \<longrightarrow> v' = v \<and> h' = h) \<and>
   (to_output_archive h name T v ar = Inr (v', ar', h') \<longrightarrow> v' = v \<and> h' = h) \<and>
   (to_json name T f = Inr f' \<longrightarrow> frame_obj f' = frame_obj f \<and> frame_heap f' = frame_heap f) \<and>
   (to_xml name T f = Inr f' \<longrightarrow> frame_obj f' = frame_obj f \<and> frame_heap f' = frame_heap f)"
proof -
  have 1: "save_ref h ar C inst = Inr (inst', ar', h') \<longrightarrow> inst' = inst \<and> h' = h"
    unfolding save_ref_hands_back by (blast dest: handing_back_Inr)
  have 2: "saveHelper_ref h ar C n index inst = Inr (inst', ar', h') \<longrightarrow> inst' = inst \<and> h' = h"
    unfolding save_ref_hands_back by (blast dest: handing_back_Inr)
  have 3: "saveParents_ref h ar C index inst = Inr (inst', ar', h') \<longrightarrow> inst' = inst \<and> h' = h"
    unfolding save_ref_hands_back by (blast dest: handing_back_Inr)
  have 4: "OutputArchive_call_ref h ar name T v = Inr (v', ar', h') \<longrightarrow> v' = v \<and> h' = h"
    unfolding save_ref_hands_back by (blast dest: handing_back_Inr)
  have 5: "to_output_archive h name T v ar = Inr (v', ar', h') \<longrightarrow> v' = v \<and> h' = h"
    unfolding to_output_archive_def save_ref_hands_back by (blast dest: handing_back_Inr)
  have 6: "to_json name T f = Inr f' \<longrightarrow> frame_obj f' = frame_obj f \<and> frame_heap f' = frame_heap f"
    by (auto simp: to_json_stream and_then_eq_Inr)
  have 7: "to_xml name T f = Inr f' \<longrightarrow> frame_obj f' = frame_obj f \<and> frame_heap f' = frame_heap f"
    by (auto simp: to_xml_stream and_then_eq_Inr)
  from 1 2 3 4 5 6 7 show ?thesis by blast
qed

theorem saving_leaves_object_witness:
  "save_ref [] (BinaryOutputArchive []) Child child
     = Inr (child, \<lparr> out_backend = Binary, out_stream = [Value None (IntV 22), Value None (IntV 42)],
                      out_shared = [] \<rparr>, []) \<and>
   to_json None (ClassT Child) \<lparr> frame_obj = ObjV child, frame_heap = [], frame_stream = [] \<rparr>
     = Inr \<lparr> frame_obj = ObjV child, frame_heap = [], frame_stream = child_json \<rparr> \<and>
   to_xml None (ClassT Child) \<lparr> frame_obj = ObjV child, frame_heap = [], frame_stream = [] \<rparr>
     = Inr \<lparr> frame_obj = ObjV child, frame_heap = [], frame_stream = child_json \<rparr>"
proof -
  have 1: "save [] (BinaryOutputArchive []) Child child
     = Inr \<lparr> out_backend = Binary, out_stream = [Value None (IntV 22), Value None (IntV 42)],
                out_shared = [] \<rparr>"
    by (simp add: run_simps child_def)
  obtain inst' ar' h' where 2: "save_ref [] (BinaryOutputArchive []) Child child = Inr (inst', ar', h')"
    and 3: "ar' = \<lparr> out_backend = Binary, out_stream = [Value None (IntV 22), Value None (IntV 42)],
                out_shared = [] \<rparr>"
    using 1 by (simp add: save_ref_hands_back)
  have 4: "\<exists>f'. to_json None (ClassT Child) \<lparr> frame_obj = ObjV child, frame_heap = [], frame_stream = [] \<rparr>
     = Inr f' \<and> frame_stream f' = child_json"
    by (simp add: run_simps child_def child_json_def)
  have 5: "\<exists>f'. to_xml None (ClassT Child) \<lparr> frame_obj = ObjV child, frame_heap = [], frame_stream = [] \<rparr>
     = Inr f' \<and> frame_stream f' = child_json"
    by (simp add: run_simps child_def child_json_def)
  from 4 obtain fj where fj: "to_json None (ClassT Child) \<lparr> frame_obj = ObjV child, frame_heap = [], frame_stream = [] \<rparr>
     = Inr fj" "frame_stream fj = child_json" by blast
  from 5 obtain fx where fx: "to_xml None (ClassT Child) \<lparr> frame_obj = ObjV child, frame_heap = [], frame_stream = [] \<rparr>
     = Inr fx" "frame_stream fx = child_json" by blast
  from saving_leaves_object [of "[]" "BinaryOutputArchive []" Child child inst' ar' h'] 2
  have a: "inst' = child" "h' = []" by simp_all
  from saving_leaves_object [where name = None and T = "ClassT Child"
      and f = "\<lparr> frame_obj = ObjV child, frame_heap = [], frame_stream = [] \<rparr>" and f' = fj] fj
  have b: "frame_obj fj = ObjV child" "frame_heap fj = []" by simp_all
  from saving_leaves_object [where name = None and T = "ClassT Child"
      and f = "\<lparr> frame_obj = ObjV child, frame_heap = [], frame_stream = [] \<rparr>" and f' = fx] fx
  have c: "frame_obj fx = ObjV child" "frame_heap fx = []" by simp_all
  have "fj = \<lparr> frame_obj = ObjV child, frame_heap = [], frame_stream = child_json \<rparr>"
    using b fj(2) by (cases fj) simp
  moreover have "fx = \<lparr> frame_obj = ObjV child, frame_heap = [], frame_stream = child_json \<rparr>"
    using c fx(2) by (cases fx) simp
  ultimately show ?thesis using 2 3 a fj(1) fx(1) by simp
qed

end
